theory Spec2Isabelle
  imports Main
begin

section \<open>The markdown input model of iow-termed-ui\<close>

text \<open>
  The editing model of \<^verbatim>\<open>markdown-input.component.ts\<close> (classes \<^verbatim>\<open>Model\<close>,
  \<^verbatim>\<open>Paragraph\<close>, \<^verbatim>\<open>Link\<close>, \<^verbatim>\<open>Text\<close>, \<^verbatim>\<open>Point\<close>, \<^verbatim>\<open>Selection\<close>) is a graph of
  mutable objects with parent pointers. The embedding keeps the objects in an explicit
  store: a reference is a number, every class has its own table from references to the
  object's fields, and every method takes the store and returns the new one. A method
  that throws returns \<open>Inl\<close> of the error and of the store at the moment of the throw:
  what it changed before the throw stays changed. A getter changes nothing and returns
  the error alone.

  JavaScript strings are modelled as \<open>string\<close>; numbers that are offsets are \<open>int\<close>, and
  where the code adds to an offset or subtracts from it, the result is rounded as the sum
  of two doubles is.
\<close>

subsection \<open>Strings\<close>

text \<open>\<^verbatim>\<open>String.prototype.trim\<close> strips white space and line terminators from both
  ends. Of the code units below 256 these are tab, line feed, vertical tab, form feed,
  carriage return, space and no-break space.\<close>

definition isWhiteSpace :: "char \<Rightarrow> bool" where
  "isWhiteSpace c = (of_char c \<in> {9, 10, 11, 12, 13, 32, 160 :: nat})"

definition trim :: "string \<Rightarrow> string" where
  "trim s = rev (dropWhile isWhiteSpace (rev (dropWhile isWhiteSpace s)))"

text \<open>\<^verbatim>\<open>s.substring(a, b)\<close>: both indices are clamped to \<open>[0, length]\<close> and swapped
  when the first is the larger.\<close>

definition substring :: "string \<Rightarrow> int \<Rightarrow> int \<Rightarrow> string" where
  "substring s a b =
     (let len = int (length s);
          a' = min (max a 0) len;
          b' = min (max b 0) len;
          lo = min a' b';
          hi = max a' b'
      in take (nat (hi - lo)) (drop (nat lo) s))"

text \<open>\<^verbatim>\<open>s.substring(a)\<close>, the one-argument form.\<close>

definition substringFrom :: "string \<Rightarrow> int \<Rightarrow> string" where
  "substringFrom s a = substring s a (int (length s))"

subsection \<open>Numbers\<close>

text \<open>A number is an IEEE double. Every integer up to \<open>2 ^ 53\<close> in absolute value is
  one; above, the doubles are the multiples of \<open>2 ^ (n - 53)\<close> for an absolute value of \<open>n\<close>
  binary digits. The sum of two numbers is the double nearest to the exact sum, and of two
  equally near the one whose significand is even. \<open>roundToDouble\<close> gives that double for
  an exact integer sum (no offset is so large that the sum is infinite).\<close>

function bitLength :: "int \<Rightarrow> nat" where
  "bitLength a = (if a \<le> 0 then 0 else Suc (bitLength (a div 2)))"
  by auto

termination bitLength
  by (relation "measure nat") auto

declare bitLength.simps [simp del]

definition roundToDouble :: "int \<Rightarrow> int" where
  "roundToDouble x =
     (if \<bar>x\<bar> \<le> 2 ^ 53 then x
      else
        (let ulp = 2 ^ (bitLength \<bar>x\<bar> - 53);
             q = \<bar>x\<bar> div ulp;
             r = \<bar>x\<bar> mod ulp;
             m = (if 2 * r < ulp \<or> (2 * r = ulp \<and> even q) then q else q + 1)
         in sgn x * (m * ulp)))"

subsection \<open>Errors\<close>

text \<open>One constructor for each message the source throws with \<^verbatim>\<open>new Error\<close>, one for
  the \<^verbatim>\<open>TypeError\<close> of a property read on \<^verbatim>\<open>undefined\<close> or \<^verbatim>\<open>null\<close>, and one for the
  \<^verbatim>\<open>NotFoundError\<close> that \<^verbatim>\<open>removeChild\<close> and \<^verbatim>\<open>insertBefore\<close> of the DOM raise when
  the reference node is not a child. \<open>NotInDocument\<close> and \<open>OutOfFuel\<close> belong to the
  model: the first is the host selection pointing outside the editable element, the
  second is a loop of the model stopped by its bound (it is not a result of the
  program).\<close>

datatype error =
    NotADocument
  | NotAParagraph
  | NotAText
  | NotASingleChild
  | IllegalState
  | IllegalArgument
  | NoContentInParagraph
  | RemoveRangeNotInBounds
  | TypeError
  | NotFoundError
  | NotInDocument
  | OutOfFuel

definition andThen :: "'e + 'a \<Rightarrow> ('a \<Rightarrow> 'e + 'b) \<Rightarrow> 'e + 'b" where
  "andThen r f = (case r of Inl e \<Rightarrow> Inl e | Inr x \<Rightarrow> f x)"

subsection \<open>Array helpers\<close>

text \<open>Modelled from the spec: \<^verbatim>\<open>utils/array\<close> (\<^verbatim>\<open>insertBefore\<close>, \<^verbatim>\<open>remove\<close>,
  \<^verbatim>\<open>previousOf\<close>, \<^verbatim>\<open>nextOf\<close>, \<^verbatim>\<open>previousOfMapped\<close>, \<^verbatim>\<open>nextOfMapped\<close>) is not among the
  sources. The spec has them insert a node before a reference node, remove a node, and
  give the element immediately before or after a given one, "none" at the ends. On an
  element that is not in the array the model leaves the array unchanged and answers
  "none".\<close>

fun insertBefore :: "'a list \<Rightarrow> 'a \<Rightarrow> 'a \<Rightarrow> 'a list" where
  "insertBefore [] item ref = []"
| "insertBefore (x # xs) item ref =
     (if x = ref then item # x # xs else x # insertBefore xs item ref)"

definition remove :: "'a list \<Rightarrow> 'a \<Rightarrow> 'a list" where
  "remove arr item = remove1 item arr"

fun previousOfMapped :: "'a list \<Rightarrow> ('a \<Rightarrow> 'b) \<Rightarrow> 'b \<Rightarrow> 'a option" where
  "previousOfMapped [] f item = None"
| "previousOfMapped [x] f item = None"
| "previousOfMapped (x # y # ys) f item =
     (if f x = item then None
      else if f y = item then Some x
      else previousOfMapped (y # ys) f item)"

fun nextOfMapped :: "'a list \<Rightarrow> ('a \<Rightarrow> 'b) \<Rightarrow> 'b \<Rightarrow> 'a option" where
  "nextOfMapped [] f item = None"
| "nextOfMapped (x # xs) f item =
     (if f x = item then (case xs of [] \<Rightarrow> None | y # _ \<Rightarrow> Some y)
      else nextOfMapped xs f item)"

definition previousOf :: "'a list \<Rightarrow> 'a \<Rightarrow> 'a option" where
  "previousOf arr item = previousOfMapped arr (\<lambda>x. x) item"

definition nextOf :: "'a list \<Rightarrow> 'a \<Rightarrow> 'a option" where
  "nextOf arr item = nextOfMapped arr (\<lambda>x. x) item"

subsection \<open>Objects and the store\<close>

type_synonym ref = nat

text \<open>An element of \<^verbatim>\<open>Paragraph.content\<close> is a \<^verbatim>\<open>Text\<close> or a \<^verbatim>\<open>Link\<close>; the parent of a
  \<^verbatim>\<open>Text\<close> is a \<^verbatim>\<open>Paragraph\<close> or a \<^verbatim>\<open>Link\<close>.\<close>

datatype Content = TextRef ref | LinkRef ref

datatype Parent = OfParagraph ref | OfLink ref

record Text =
  Text_parent :: Parent
  Text_content :: string

record Link =
  Link_parent :: ref
  Link_text :: ref
  Link_target :: "string option"

record Paragraph =
  Paragraph_content :: "Content list"

datatype Point = Point (Point_text: ref) (Point_offset: int)

datatype LinkableSelection =
  LinkableSelection (ls_text: ref) (ls_start: int) (ls_end: int) (ls_cursor: int)

datatype LinkedSelection = LinkedSelection (ls_link: ref) (ls_link_cursor: int)

datatype Selection =
  Selection (sel_start: Point) (sel_end: Point) (sel_textBetween: "ref list")

text \<open>The one \<^verbatim>\<open>Model\<close> with its three fields, the tables of the objects created so
  far with the next free reference of each, and the selection of the editable element
  (the text node of the \<^verbatim>\<open>Text\<close> and the offset, for its start and its end).\<close>

record Model =
  content :: "ref list"
  linkableSelection :: "LinkableSelection option"
  linkedSelection :: "LinkedSelection option"
  texts :: "ref \<Rightarrow> Text"
  links :: "ref \<Rightarrow> Link"
  paragraphs :: "ref \<Rightarrow> Paragraph"
  nextText :: ref
  nextLink :: ref
  nextParagraph :: ref
  domSelection :: "(ref \<times> int) \<times> (ref \<times> int)"

text \<open>What a method that changes objects throws: the error, and the store as it is when
  the error is thrown. \<open>thrownAt\<close> is the throw of a getter inside such a method, which
  happens in the store the getter was called in; \<open>thrown\<close> reads the error of a result.\<close>

type_synonym fault = "error \<times> Model"

definition thrownAt :: "Model \<Rightarrow> error + 'a \<Rightarrow> fault + 'a" where
  "thrownAt s r = (case r of Inl e \<Rightarrow> Inl (e, s) | Inr x \<Rightarrow> Inr x)"

definition thrown :: "fault + 'a \<Rightarrow> error option" where
  "thrown r = (case r of Inl f \<Rightarrow> Some (fst f) | Inr x \<Rightarrow> None)"

definition errorOf :: "fault + 'a \<Rightarrow> error + 'a" where
  "errorOf r = (case r of Inl f \<Rightarrow> Inl (fst f) | Inr x \<Rightarrow> Inr x)"

subsection \<open>Fields, getters and constructors\<close>

text \<open>\<^verbatim>\<open>set content(value) { this._content = value || ' '; ... }\<close> of \<^verbatim>\<open>Text\<close>: the
  empty string is stored as one space.\<close>

definition Text_set_content :: "ref \<Rightarrow> string \<Rightarrow> Model \<Rightarrow> Model" where
  "Text_set_content t v s =
     s\<lparr>texts := (texts s)(t := (texts s t)\<lparr>Text_content := (if v = [] then '' '' else v)\<rparr>)\<rparr>"

definition Text_length :: "Model \<Rightarrow> ref \<Rightarrow> int" where
  "Text_length s t = int (length (Text_content (texts s t)))"

definition Text_isInLink :: "Model \<Rightarrow> ref \<Rightarrow> bool" where
  "Text_isInLink s t = (case Text_parent (texts s t) of OfLink l \<Rightarrow> True | OfParagraph p \<Rightarrow> False)"

definition Text_containingParagraph :: "Model \<Rightarrow> ref \<Rightarrow> ref" where
  "Text_containingParagraph s t =
     (case Text_parent (texts s t) of OfParagraph p \<Rightarrow> p | OfLink l \<Rightarrow> Link_parent (links s l))"

definition Text_append :: "ref \<Rightarrow> string \<Rightarrow> Model \<Rightarrow> Model" where
  "Text_append t v s = Text_set_content t (Text_content (texts s t) @ v) s"

text \<open>\<^verbatim>\<open>new Text(parent, content)\<close>, \<^verbatim>\<open>new Link(parent, text, target)\<close> and
  \<^verbatim>\<open>new Paragraph(parent)\<close> take the next free reference.\<close>

definition new_Text :: "Parent \<Rightarrow> string \<Rightarrow> Model \<Rightarrow> ref \<times> Model" where
  "new_Text parent v s =
     (let t = nextText s;
          s1 = s\<lparr>texts := (texts s)(t := \<lparr>Text_parent = parent, Text_content = []\<rparr>),
                 nextText := Suc t\<rparr>
      in (t, Text_set_content t v s1))"

definition new_Link :: "ref \<Rightarrow> string \<Rightarrow> string option \<Rightarrow> Model \<Rightarrow> ref \<times> Model" where
  "new_Link parent v target s =
     (let l = nextLink s;
          (t, s1) = new_Text (OfLink l) v (s\<lparr>nextLink := Suc l\<rparr>)
      in (l, s1\<lparr>links := (links s1)(l :=
                 \<lparr>Link_parent = parent, Link_text = t, Link_target = target\<rparr>)\<rparr>))"

definition new_Paragraph :: "Model \<Rightarrow> ref \<times> Model" where
  "new_Paragraph s =
     (let p = nextParagraph s
      in (p, s\<lparr>paragraphs := (paragraphs s)(p := \<lparr>Paragraph_content = []\<rparr>),
               nextParagraph := Suc p\<rparr>))"

text \<open>The getters \<^verbatim>\<open>text\<close> and \<^verbatim>\<open>content\<close> and the setter \<^verbatim>\<open>content\<close> that \<^verbatim>\<open>Text\<close> and
  \<^verbatim>\<open>Link\<close> share, and \<^verbatim>\<open>instanceof Text\<close>.\<close>

definition Content_text :: "Model \<Rightarrow> Content \<Rightarrow> ref" where
  "Content_text s c = (case c of TextRef t \<Rightarrow> t | LinkRef l \<Rightarrow> Link_text (links s l))"

definition Content_content :: "Model \<Rightarrow> Content \<Rightarrow> string" where
  "Content_content s c = Text_content (texts s (Content_text s c))"

definition Content_set_content :: "Content \<Rightarrow> string \<Rightarrow> Model \<Rightarrow> Model" where
  "Content_set_content c v s = Text_set_content (Content_text s c) v s"

definition isText :: "Content \<Rightarrow> bool" where
  "isText c = (case c of TextRef t \<Rightarrow> True | LinkRef l \<Rightarrow> False)"

definition Content_copyToParent :: "Content \<Rightarrow> ref \<Rightarrow> Model \<Rightarrow> Content \<times> Model" where
  "Content_copyToParent c parent s =
     (case c of
        TextRef t \<Rightarrow>
          (let (t', s') = new_Text (OfParagraph parent) (Text_content (texts s t)) s
           in (TextRef t', s'))
      | LinkRef l \<Rightarrow>
          (let (l', s') = new_Link parent (Content_content s (LinkRef l)) (Link_target (links s l)) s
           in (LinkRef l', s')))"

subsection \<open>Adding and removing nodes\<close>

text \<open>The children of the editable element are the nodes of \<^verbatim>\<open>Model.content\<close>, and the
  children of a paragraph's node are the nodes of its \<^verbatim>\<open>content\<close>, in the same order:
  every method changes the array and the DOM together. So \<^verbatim>\<open>removeChild\<close> and
  \<^verbatim>\<open>insertBefore\<close> of the DOM raise \<open>NotFoundError\<close> exactly when the reference object
  is not in the array.\<close>

definition set_Paragraph_content :: "ref \<Rightarrow> Content list \<Rightarrow> Model \<Rightarrow> Model" where
  "set_Paragraph_content p cs s =
     s\<lparr>paragraphs := (paragraphs s)(p := (paragraphs s p)\<lparr>Paragraph_content := cs\<rparr>)\<rparr>"

definition Paragraph_addContent :: "ref \<Rightarrow> Content \<Rightarrow> Model \<Rightarrow> Model" where
  "Paragraph_addContent p c s =
     set_Paragraph_content p (Paragraph_content (paragraphs s p) @ [c]) s"

definition Paragraph_addContentBefore :: "ref \<Rightarrow> Content \<Rightarrow> Content \<Rightarrow> Model \<Rightarrow> fault + Model" where
  "Paragraph_addContentBefore p c ref s =
     (let cs = Paragraph_content (paragraphs s p);
          s1 = set_Paragraph_content p (insertBefore cs c ref) s
      in if ref \<in> set cs then Inr s1 else Inl (NotFoundError, s1))"

definition Paragraph_empty :: "Model \<Rightarrow> ref \<Rightarrow> bool" where
  "Paragraph_empty s p = (length (Paragraph_content (paragraphs s p)) = 0)"

definition Model_addParagraph :: "ref \<Rightarrow> Model \<Rightarrow> Model" where
  "Model_addParagraph p s = s\<lparr>content := content s @ [p]\<rparr>"

definition Model_insertParagraphBefore :: "ref \<Rightarrow> ref \<Rightarrow> Model \<Rightarrow> fault + Model" where
  "Model_insertParagraphBefore newParagraph ref s =
     (let s1 = s\<lparr>content := insertBefore (content s) newParagraph ref\<rparr>
      in if ref \<in> set (content s) then Inr s1 else Inl (NotFoundError, s1))"

definition Model_removeContent :: "ref \<Rightarrow> Model \<Rightarrow> fault + Model" where
  "Model_removeContent p s =
     (if p \<in> set (content s) then Inr (s\<lparr>content := remove (content s) p\<rparr>)
      else Inl (NotFoundError, s))"

definition Paragraph_remove :: "ref \<Rightarrow> Model \<Rightarrow> fault + Model" where
  "Paragraph_remove p s = Model_removeContent p s"

definition Paragraph_removeContent :: "ref \<Rightarrow> Content \<Rightarrow> Model \<Rightarrow> fault + Model" where
  "Paragraph_removeContent p c s =
     (let cs = Paragraph_content (paragraphs s p)
      in if length cs = 1 then Model_removeContent p s
         else if c \<in> set cs then Inr (set_Paragraph_content p (remove cs c) s)
         else Inl (NotFoundError, s))"

definition Link_remove :: "ref \<Rightarrow> Model \<Rightarrow> fault + Model" where
  "Link_remove l s = Paragraph_removeContent (Link_parent (links s l)) (LinkRef l) s"

definition Link_removeContent :: "ref \<Rightarrow> ref \<Rightarrow> Model \<Rightarrow> fault + Model" where
  "Link_removeContent l t s =
     (if t \<noteq> Link_text (links s l) then Inl (IllegalArgument, s) else Link_remove l s)"

subsection \<open>Neighbouring text runs\<close>

definition Paragraph_lastContent :: "Model \<Rightarrow> ref \<Rightarrow> error + Content" where
  "Paragraph_lastContent s p =
     (let cs = Paragraph_content (paragraphs s p)
      in if length cs = 0 then Inl NoContentInParagraph else Inr (last cs))"

definition Paragraph_lastText :: "Model \<Rightarrow> ref \<Rightarrow> error + ref" where
  "Paragraph_lastText s p = andThen (Paragraph_lastContent s p) (\<lambda>c. Inr (Content_text s c))"

definition Paragraph_firstContent :: "Model \<Rightarrow> ref \<Rightarrow> error + Content" where
  "Paragraph_firstContent s p =
     (let cs = Paragraph_content (paragraphs s p)
      in if length cs = 0 then Inl NoContentInParagraph else Inr (hd cs))"

definition Paragraph_firstText :: "Model \<Rightarrow> ref \<Rightarrow> error + ref" where
  "Paragraph_firstText s p = andThen (Paragraph_firstContent s p) (\<lambda>c. Inr (Content_text s c))"

definition Model_getPrecedingText :: "Model \<Rightarrow> ref \<Rightarrow> error + ref option" where
  "Model_getPrecedingText s paragraph =
     (case previousOf (content s) paragraph of
        Some previous \<Rightarrow> andThen (Paragraph_lastText s previous) (\<lambda>t. Inr (Some t))
      | None \<Rightarrow> Inr None)"

definition Model_getFollowingText :: "Model \<Rightarrow> ref \<Rightarrow> error + ref option" where
  "Model_getFollowingText s paragraph =
     (case nextOf (content s) paragraph of
        Some next \<Rightarrow> andThen (Paragraph_firstText s next) (\<lambda>t. Inr (Some t))
      | None \<Rightarrow> Inr None)"

definition Paragraph_getPrecedingText :: "Model \<Rightarrow> ref \<Rightarrow> ref \<Rightarrow> error + ref option" where
  "Paragraph_getPrecedingText s p t =
     (case previousOfMapped (Paragraph_content (paragraphs s p)) (Content_text s) t of
        Some previous \<Rightarrow> Inr (Some (Content_text s previous))
      | None \<Rightarrow> Model_getPrecedingText s p)"

definition Paragraph_getFollowingText :: "Model \<Rightarrow> ref \<Rightarrow> ref \<Rightarrow> error + ref option" where
  "Paragraph_getFollowingText s p t =
     (case nextOfMapped (Paragraph_content (paragraphs s p)) (Content_text s) t of
        Some next \<Rightarrow> Inr (Some (Content_text s next))
      | None \<Rightarrow> Model_getFollowingText s p)"

definition Link_getPrecedingText :: "Model \<Rightarrow> ref \<Rightarrow> error + ref option" where
  "Link_getPrecedingText s l =
     Paragraph_getPrecedingText s (Link_parent (links s l)) (Link_text (links s l))"

definition Link_getFollowingText :: "Model \<Rightarrow> ref \<Rightarrow> error + ref option" where
  "Link_getFollowingText s l =
     Paragraph_getFollowingText s (Link_parent (links s l)) (Link_text (links s l))"

definition Text_getPrecedingText :: "Model \<Rightarrow> ref \<Rightarrow> error + ref option" where
  "Text_getPrecedingText s t =
     (case Text_parent (texts s t) of
        OfParagraph p \<Rightarrow> Paragraph_getPrecedingText s p t
      | OfLink l \<Rightarrow> Link_getPrecedingText s l)"

definition Text_getFollowingText :: "Model \<Rightarrow> ref \<Rightarrow> error + ref option" where
  "Text_getFollowingText s t =
     (case Text_parent (texts s t) of
        OfParagraph p \<Rightarrow> Paragraph_getFollowingText s p t
      | OfLink l \<Rightarrow> Link_getFollowingText s l)"

subsection \<open>Editing a text run\<close>

definition Text_remove :: "ref \<Rightarrow> Model \<Rightarrow> fault + (Point option \<times> Model)" where
  "Text_remove t s =
     andThen (thrownAt s (Text_getPrecedingText s t)) (\<lambda>previous.
     andThen (case Text_parent (texts s t) of
                OfParagraph p \<Rightarrow> Paragraph_removeContent p (TextRef t) s
              | OfLink l \<Rightarrow> Link_removeContent l t s) (\<lambda>s1.
     Inr (case previous of
            Some pr \<Rightarrow> Some (Point pr (Text_length s1 pr))
          | None \<Rightarrow> None, s1)))"

definition Text_removeRange :: "ref \<Rightarrow> int \<Rightarrow> int \<Rightarrow> Model \<Rightarrow> fault + (Point option \<times> Model)" where
  "Text_removeRange t start end' s =
     (if start < 0 \<or> end' > Text_length s t then Inl (RemoveRangeNotInBounds, s)
      else if start = 0 \<and> end' = Text_length s t then Text_remove t s
      else
        (let beforeStart = substring (Text_content (texts s t)) 0 start;
             afterEnd = substringFrom (Text_content (texts s t)) end'
         in Inr (Some (Point t start), Text_set_content t (beforeStart @ afterEnd) s)))"

definition Text_removeAfter :: "ref \<Rightarrow> int \<Rightarrow> Model \<Rightarrow> fault + (Point option \<times> Model)" where
  "Text_removeAfter t offset s = Text_removeRange t offset (Text_length s t) s"

definition Text_removeBefore :: "ref \<Rightarrow> int \<Rightarrow> Model \<Rightarrow> fault + (Point option \<times> Model)" where
  "Text_removeBefore t offset s = Text_removeRange t 0 offset s"

definition Text_removeLastCharacter :: "ref \<Rightarrow> Model \<Rightarrow> fault + (Point option \<times> Model)" where
  "Text_removeLastCharacter t s =
     (if Text_length s t \<le> 1 then Text_remove t s
      else Text_removeRange t (Text_length s t - 1) (Text_length s t) s)"

definition Text_removeFirstCharacter :: "ref \<Rightarrow> Model \<Rightarrow> fault + (Point option \<times> Model)" where
  "Text_removeFirstCharacter t s =
     (if Text_length s t \<le> 1 then Text_remove t s else Text_removeRange t 0 1 s)"

text \<open>\<^verbatim>\<open>new Point(this, offset + 1)\<close>: the offset of the Point is the sum as the code
  computes it, here and wherever a method adds to an offset or subtracts from it.\<close>

definition Text_insertChar :: "ref \<Rightarrow> string \<Rightarrow> int \<Rightarrow> Model \<Rightarrow> Point \<times> Model" where
  "Text_insertChar t char offset s =
     (let start = substring (Text_content (texts s t)) 0 offset;
          end' = substring (Text_content (texts s t)) offset (Text_length s t)
      in (Point t (roundToDouble (offset + 1)), Text_set_content t (start @ char @ end') s))"

subsection \<open>Merging and splitting paragraphs\<close>

text \<open>The loop of \<^verbatim>\<open>combineWith\<close> over \<^verbatim>\<open>paragraph.content\<close>. It runs only when
  \<^verbatim>\<open>paragraph !== this\<close>, and it changes \<^verbatim>\<open>this.content\<close> and text runs only, so the
  array it walks is the one read at its start.\<close>

fun combineWith_loop :: "ref \<Rightarrow> Content \<Rightarrow> bool \<Rightarrow> Content list \<Rightarrow> Model \<Rightarrow> Model" where
  "combineWith_loop this lastOfThis firstChild [] s = s"
| "combineWith_loop this lastOfThis firstChild (c # cs) s =
     combineWith_loop this lastOfThis False cs
       (if firstChild \<and> isText lastOfThis \<and> isText c then
          (if trim (Content_content s lastOfThis) \<noteq> [] then
             Text_append (Content_text s lastOfThis) (Content_content s c) s
           else Content_set_content lastOfThis (Content_content s c) s)
        else
          (let (c', s1) = Content_copyToParent c this s
           in Paragraph_addContent this c' s1))"

text \<open>\<^verbatim>\<open>this.content[this.content.length - 1]\<close> of an empty array is \<^verbatim>\<open>undefined\<close>, and
  reading \<^verbatim>\<open>.text\<close> of it is a \<open>TypeError\<close>.\<close>

definition Paragraph_combineWith :: "ref \<Rightarrow> ref \<Rightarrow> Model \<Rightarrow> fault + (Point option \<times> Model)" where
  "Paragraph_combineWith this paragraph s =
     (if paragraph = this then Inr (None, s)
      else if Paragraph_content (paragraphs s this) = [] then Inl (TypeError, s)
      else
        (let lastOfThis = last (Paragraph_content (paragraphs s this));
             lastContentBeforeChanges = Content_content s lastOfThis;
             s1 = combineWith_loop this lastOfThis True (Paragraph_content (paragraphs s paragraph)) s
         in andThen (Paragraph_remove paragraph s1) (\<lambda>s2.
            Inr (Some (Point (Content_text s2 lastOfThis)
                        (if trim lastContentBeforeChanges = [] then 0
                         else int (length lastContentBeforeChanges))), s2))))"

definition Paragraph_appendText :: "ref \<Rightarrow> string \<Rightarrow> Model \<Rightarrow> Model" where
  "Paragraph_appendText p v s =
     (let cs = Paragraph_content (paragraphs s p)
      in if length cs > 0 \<and> isText (last cs) then Text_append (Content_text s (last cs)) v s
         else (let (t, s1) = new_Text (OfParagraph p) v s
               in Paragraph_addContent p (TextRef t) s1))"

text \<open>The first loop of \<^verbatim>\<open>splitTo\<close>, with its \<^verbatim>\<open>break\<close>; it returns \<^verbatim>\<open>contentToRemove\<close>.
  The prefix paragraph is another object than \<^verbatim>\<open>this\<close> at the one call of the source, so
  the array it walks is the one read at its start.\<close>

fun splitTo_loop :: "ref \<Rightarrow> ref \<Rightarrow> int \<Rightarrow> Content list \<Rightarrow> Content list \<Rightarrow> Model
    \<Rightarrow> Content list \<times> Model" where
  "splitTo_loop prependingParagraph fromText fromOffset [] contentToRemove s =
     (contentToRemove, s)"
| "splitTo_loop prependingParagraph fromText fromOffset (c # cs) contentToRemove s =
     (if Content_text s c = fromText then
        (let contentText = Content_content s c;
             s1 = Paragraph_appendText prependingParagraph (substring contentText 0 fromOffset) s;
             s2 = Content_set_content c (substring contentText fromOffset (Text_length s1 fromText)) s1
         in (contentToRemove, s2))
      else
        (let (c', s1) = Content_copyToParent c prependingParagraph s;
             s2 = Paragraph_addContent prependingParagraph c' s1
         in splitTo_loop prependingParagraph fromText fromOffset cs (contentToRemove @ [c]) s2))"

definition Content_remove :: "Content \<Rightarrow> Model \<Rightarrow> fault + Model" where
  "Content_remove c s =
     (case c of
        TextRef t \<Rightarrow> andThen (Text_remove t s) (\<lambda>(point, s1). Inr s1)
      | LinkRef l \<Rightarrow> Link_remove l s)"

fun removeAll_loop :: "Content list \<Rightarrow> Model \<Rightarrow> fault + Model" where
  "removeAll_loop [] s = Inr s"
| "removeAll_loop (c # cs) s = andThen (Content_remove c s) (removeAll_loop cs)"

definition Paragraph_splitTo :: "ref \<Rightarrow> ref \<Rightarrow> ref \<Rightarrow> int \<Rightarrow> Model \<Rightarrow> fault + (Point \<times> Model)" where
  "Paragraph_splitTo this prependingParagraph fromText fromOffset s =
     (let (contentToRemove, s1) =
            splitTo_loop prependingParagraph fromText fromOffset
              (Paragraph_content (paragraphs s this)) [] s
      in andThen (removeAll_loop contentToRemove s1) (\<lambda>s2.
         (let s3 = (if Paragraph_empty s2 prependingParagraph then
                      (let (t, s') = new_Text (OfParagraph prependingParagraph) [] s2
                       in Paragraph_addContent prependingParagraph (TextRef t) s')
                    else s2)
          in andThen (thrownAt s3 (Paragraph_firstText s3 this)) (\<lambda>t. Inr (Point t 0, s3)))))"

text \<open>The \<^verbatim>\<open>while\<close> loop of \<^verbatim>\<open>mergeConsecutiveTexts\<close>. Each round removes a node of
  \<^verbatim>\<open>this.content\<close> or moves \<^verbatim>\<open>i\<close> forward; the model bounds the rounds by the first
  argument and answers \<open>OutOfFuel\<close> when the bound is used up. \<^verbatim>\<open>cursor\<close> is the
  argument of the method, \<^verbatim>\<open>cursorAfterMerging\<close> the local variable.\<close>

fun mergeConsecutiveTexts_loop :: "nat \<Rightarrow> ref \<Rightarrow> Point \<Rightarrow> nat \<Rightarrow> Point \<Rightarrow> Model
    \<Rightarrow> fault + (Point \<times> Model)" where
  "mergeConsecutiveTexts_loop 0 this cursor i cursorAfterMerging s = Inl (OutOfFuel, s)"
| "mergeConsecutiveTexts_loop (Suc fuel) this cursor i cursorAfterMerging s =
     (let cs = Paragraph_content (paragraphs s this)
      in if i < length cs then
           (let previous = cs ! (i - 1);
                current = cs ! i
            in case (previous, current) of
                 (TextRef pr, TextRef cu) \<Rightarrow>
                   (let previousLengthBeforeAppending = Text_length s pr;
                        s1 = Text_append pr (Text_content (texts s cu)) s;
                        cursorAfterMerging' =
                          (if Point_text cursor = cu
                           then Point pr (roundToDouble
                                  (previousLengthBeforeAppending + Point_offset cursorAfterMerging))
                           else cursorAfterMerging)
                    in andThen (Text_remove cu s1) (\<lambda>(point, s2).
                       mergeConsecutiveTexts_loop fuel this cursor i cursorAfterMerging' s2))
               | _ \<Rightarrow> mergeConsecutiveTexts_loop fuel this cursor (i + 1) cursorAfterMerging s)
         else Inr (cursorAfterMerging, s))"

text \<open>Modelled from the spec: \<^verbatim>\<open>moveCursor\<close> of \<^verbatim>\<open>utils/dom\<close> is not among the sources.
  The spec has it request that the editing surface move its caret to the text run and
  offset given: the selection of the editable element becomes that collapsed point.\<close>

definition moveCursor :: "ref \<Rightarrow> int \<Rightarrow> Model \<Rightarrow> Model" where
  "moveCursor node offset s = s\<lparr>domSelection := ((node, offset), (node, offset))\<rparr>"

definition Paragraph_mergeConsecutiveTexts :: "ref \<Rightarrow> Point \<Rightarrow> Model \<Rightarrow> fault + Model" where
  "Paragraph_mergeConsecutiveTexts this cursor s =
     andThen
       (if length (Paragraph_content (paragraphs s this)) < 2 then Inr (cursor, s)
        else mergeConsecutiveTexts_loop (2 * length (Paragraph_content (paragraphs s this)))
               this cursor 1 cursor s)
       (\<lambda>(cursorAfterMerging, s1).
          Inr (moveCursor (Point_text cursorAfterMerging) (Point_offset cursorAfterMerging) s1))"

subsection \<open>Deleting one character\<close>

definition Text_removeNextChar :: "ref \<Rightarrow> int \<Rightarrow> Model \<Rightarrow> fault + (Point option \<times> Model)" where
  "Text_removeNextChar t offset s =
     (if offset \<ge> Text_length s t then
        andThen (thrownAt s (Text_getFollowingText s t)) (\<lambda>next.
          case next of
            Some n \<Rightarrow>
              if Text_containingParagraph s n \<noteq> Text_containingParagraph s t
              then Paragraph_combineWith (Text_containingParagraph s t) (Text_containingParagraph s n) s
              else Text_removeFirstCharacter n s
          | None \<Rightarrow> Inr (None, s))
      else Text_removeRange t offset (roundToDouble (offset + 1)) s)"

definition Text_removePreviousChar :: "ref \<Rightarrow> int \<Rightarrow> Model \<Rightarrow> fault + (Point option \<times> Model)" where
  "Text_removePreviousChar t offset s =
     (if offset \<le> 0 then
        andThen (thrownAt s (Text_getPrecedingText s t)) (\<lambda>previous.
          case previous of
            Some pr \<Rightarrow>
              if Text_containingParagraph s pr \<noteq> Text_containingParagraph s t
              then Paragraph_combineWith (Text_containingParagraph s pr) (Text_containingParagraph s t) s
              else Text_removeLastCharacter pr s
          | None \<Rightarrow> Inr (None, s))
      else Text_removeRange t (roundToDouble (offset - 1)) offset s)"

subsection \<open>Addresses and the host selection\<close>

definition Text_findTextForPath :: "ref \<Rightarrow> nat list \<Rightarrow> error + ref" where
  "Text_findTextForPath t indicesFromRoot =
     (if length indicesFromRoot \<noteq> 0 then Inl IllegalState else Inr t)"

text \<open>\<^verbatim>\<open>shift()\<close> of an empty array is \<^verbatim>\<open>undefined\<close>, which is not \<open>0\<close>.\<close>

definition Link_findTextForPath :: "Model \<Rightarrow> ref \<Rightarrow> nat list \<Rightarrow> error + ref" where
  "Link_findTextForPath s l indicesFromRoot =
     (case indicesFromRoot of
        [] \<Rightarrow> Inl IllegalState
      | index # rest \<Rightarrow>
          if index \<noteq> 0 \<or> length rest \<noteq> 0 then Inl IllegalState
          else Inr (Link_text (links s l)))"

text \<open>\<^verbatim>\<open>this.content[index]\<close> is \<^verbatim>\<open>undefined\<close> when the index is \<^verbatim>\<open>undefined\<close> or out of
  range, and calling its \<^verbatim>\<open>findTextForPath\<close> is a \<open>TypeError\<close>.\<close>

definition Paragraph_findTextForPath :: "Model \<Rightarrow> ref \<Rightarrow> nat list \<Rightarrow> error + ref" where
  "Paragraph_findTextForPath s p indicesFromRoot =
     (case indicesFromRoot of
        [] \<Rightarrow> Inl TypeError
      | index # rest \<Rightarrow>
          if index < length (Paragraph_content (paragraphs s p)) then
            (case Paragraph_content (paragraphs s p) ! index of
               TextRef t \<Rightarrow> Text_findTextForPath t rest
             | LinkRef l \<Rightarrow> Link_findTextForPath s l rest)
          else Inl TypeError)"

definition Model_findTextForPath :: "Model \<Rightarrow> nat list \<Rightarrow> error + ref" where
  "Model_findTextForPath s indicesFromRoot =
     (case indicesFromRoot of
        [] \<Rightarrow> Inl TypeError
      | index # rest \<Rightarrow>
          if index < length (content s) then Paragraph_findTextForPath s (content s ! index) rest
          else Inl TypeError)"

text \<open>Modelled from the spec: \<^verbatim>\<open>DomSelection\<close> and \<^verbatim>\<open>DomPath\<close> of \<^verbatim>\<open>utils/dom\<close> are not
  among the sources. The spec has the host selection give, for its start and its end, a
  leaf address (the child indices from the root down to the text run) and a character
  offset. The address of a text node is its place among the children of the editable
  element: the index of its paragraph, the index of the content node, and \<open>0\<close> more when
  that node is a link. A node that is not below the editable element has no address.\<close>

fun indexOfMapped :: "'a list \<Rightarrow> ('a \<Rightarrow> 'b) \<Rightarrow> 'b \<Rightarrow> nat option" where
  "indexOfMapped [] f item = None"
| "indexOfMapped (x # xs) f item =
     (if f x = item then Some 0 else map_option Suc (indexOfMapped xs f item))"

definition indicesInParagraph :: "Model \<Rightarrow> ref \<Rightarrow> ref \<Rightarrow> nat list option" where
  "indicesInParagraph s p node =
     (case indexOfMapped (Paragraph_content (paragraphs s p)) (Content_text s) node of
        None \<Rightarrow> None
      | Some j \<Rightarrow>
          Some (case Paragraph_content (paragraphs s p) ! j of
                  TextRef t \<Rightarrow> [j]
                | LinkRef l \<Rightarrow> [j, 0]))"

fun indicesFromRoot_loop :: "Model \<Rightarrow> ref list \<Rightarrow> nat \<Rightarrow> ref \<Rightarrow> nat list option" where
  "indicesFromRoot_loop s [] i node = None"
| "indicesFromRoot_loop s (p # ps) i node =
     (case indicesInParagraph s p node of
        Some path \<Rightarrow> Some (i # path)
      | None \<Rightarrow> indicesFromRoot_loop s ps (Suc i) node)"

definition DomPath_indicesFromRoot :: "Model \<Rightarrow> ref \<Rightarrow> error + nat list" where
  "DomPath_indicesFromRoot s node =
     (case indicesFromRoot_loop s (content s) 0 node of
        None \<Rightarrow> Inl NotInDocument
      | Some path \<Rightarrow> Inr path)"

text \<open>Modelled from the spec: \<^verbatim>\<open>wordAtOffset\<close> of \<^verbatim>\<open>utils/string\<close> is not among the
  sources. The spec has it give the bounds of the maximal run of non-whitespace
  characters that contains the offset, and nothing when there is no such word.\<close>

definition wordAtOffset :: "string \<Rightarrow> int \<Rightarrow> (int \<times> int) option" where
  "wordAtOffset str offset =
     (if offset < 0 \<or> offset > int (length str) then None
      else
        (let left = takeWhile (\<lambda>c. \<not> isWhiteSpace c) (rev (take (nat offset) str));
             right = takeWhile (\<lambda>c. \<not> isWhiteSpace c) (drop (nat offset) str)
         in if left = [] \<and> right = [] then None
            else Some (offset - int (length left), offset + int (length right))))"

subsection \<open>Selection\<close>

text \<open>The loop of the constructor: from the run before \<^verbatim>\<open>end.text\<close> back to
  \<^verbatim>\<open>start.text\<close>. When there is no preceding run the loop variable is \<^verbatim>\<open>null\<close>, which
  is pushed, and the next \<^verbatim>\<open>getPrecedingText\<close> on it is a \<open>TypeError\<close>. The model
  bounds the rounds by the first argument.\<close>

fun textBetween_loop :: "nat \<Rightarrow> Model \<Rightarrow> ref \<Rightarrow> ref option \<Rightarrow> ref list \<Rightarrow> error + ref list" where
  "textBetween_loop 0 s startText t textBetween = Inl OutOfFuel"
| "textBetween_loop (Suc fuel) s startText t textBetween =
     (case t of
        None \<Rightarrow> Inl TypeError
      | Some t' \<Rightarrow>
          if t' = startText then Inr textBetween
          else andThen (Text_getPrecedingText s t') (\<lambda>t''.
                 textBetween_loop fuel s startText t'' (textBetween @ [t'])))"

definition countTexts :: "Model \<Rightarrow> nat" where
  "countTexts s = sum_list (map (\<lambda>p. length (Paragraph_content (paragraphs s p))) (content s))"

definition new_Selection :: "Model \<Rightarrow> Point \<Rightarrow> Point \<Rightarrow> error + Selection" where
  "new_Selection s start end' =
     (if Point_text start \<noteq> Point_text end' then
        andThen (Text_getPrecedingText s (Point_text end')) (\<lambda>t.
        andThen (textBetween_loop (Suc (countTexts s)) s (Point_text start) t []) (\<lambda>textBetween.
        Inr (Selection start end' textBetween)))
      else Inr (Selection start end' []))"

definition createPoint :: "Model \<Rightarrow> ref \<times> int \<Rightarrow> error + Point" where
  "createPoint s domPoint =
     andThen (DomPath_indicesFromRoot s (fst domPoint)) (\<lambda>indicesFromRoot.
     andThen (Model_findTextForPath s indicesFromRoot) (\<lambda>t.
     Inr (Point t (snd domPoint))))"

definition Selection_ofDomSelection :: "Model \<Rightarrow> error + Selection" where
  "Selection_ofDomSelection s =
     andThen (createPoint s (fst (domSelection s))) (\<lambda>start.
     andThen (createPoint s (snd (domSelection s))) (\<lambda>end'.
     new_Selection s start end'))"

definition Selection_isRange :: "Selection \<Rightarrow> bool" where
  "Selection_isRange sel =
     (Point_text (sel_start sel) \<noteq> Point_text (sel_end sel) \<or>
      Point_offset (sel_start sel) \<noteq> Point_offset (sel_end sel))"

definition Selection_isLinkable :: "Model \<Rightarrow> Selection \<Rightarrow> bool" where
  "Selection_isLinkable s sel =
     (Point_text (sel_start sel) = Point_text (sel_end sel) \<and>
      \<not> Text_isInLink s (Point_text (sel_start sel)))"

definition Selection_isLink :: "Model \<Rightarrow> Selection \<Rightarrow> bool" where
  "Selection_isLink s sel =
     (Point_text (sel_start sel) = Point_text (sel_end sel) \<and>
      Text_isInLink s (Point_text (sel_start sel)))"

definition Selection_link :: "Model \<Rightarrow> Selection \<Rightarrow> LinkedSelection option" where
  "Selection_link s sel =
     (if Selection_isLink s sel then
        (case Text_parent (texts s (Point_text (sel_end sel))) of
           OfLink l \<Rightarrow> Some (LinkedSelection l (Point_offset (sel_end sel)))
         | OfParagraph p \<Rightarrow> None)
      else None)"

definition Selection_linkable :: "Model \<Rightarrow> Selection \<Rightarrow> LinkableSelection option" where
  "Selection_linkable s sel =
     (if Selection_isLinkable s sel then
        (if Selection_isRange sel then
           Some (LinkableSelection (Point_text (sel_start sel)) (Point_offset (sel_start sel))
                   (Point_offset (sel_end sel)) (Point_offset (sel_end sel)))
         else
           (case wordAtOffset (Text_content (texts s (Point_text (sel_start sel))))
                   (Point_offset (sel_start sel)) of
              Some wordRange \<Rightarrow>
                Some (LinkableSelection (Point_text (sel_start sel)) (fst wordRange)
                        (snd wordRange) (Point_offset (sel_end sel)))
            | None \<Rightarrow> None))
      else None)"

fun removeTexts_loop :: "ref list \<Rightarrow> Model \<Rightarrow> fault + Model" where
  "removeTexts_loop [] s = Inr s"
| "removeTexts_loop (t # ts) s =
     andThen (Text_remove t s) (\<lambda>(point, s1). removeTexts_loop ts s1)"

definition Selection_remove :: "Selection \<Rightarrow> Model \<Rightarrow> fault + (Point option \<times> Model)" where
  "Selection_remove sel s =
     (let startText = Point_text (sel_start sel);
          endText = Point_text (sel_end sel)
      in if startText \<noteq> endText then
           andThen (removeTexts_loop (sel_textBetween sel) s) (\<lambda>s1.
           andThen (Text_removeAfter startText (Point_offset (sel_start sel)) s1) (\<lambda>(p1, s2).
           andThen (Text_removeBefore endText (Point_offset (sel_end sel)) s2) (\<lambda>(p2, s3).
           andThen (Paragraph_combineWith (Text_containingParagraph s3 startText)
                      (Text_containingParagraph s3 endText) s3) (\<lambda>(p3, s4).
           Inr (Some (Point startText (Point_offset (sel_start sel))), s4)))))
         else Text_removeRange startText (Point_offset (sel_start sel))
                (Point_offset (sel_end sel)) s)"

subsection \<open>The operations of the Model\<close>

definition Model_moveCursor :: "Point option \<Rightarrow> Model \<Rightarrow> Model" where
  "Model_moveCursor point s =
     (case point of
        Some pt \<Rightarrow> moveCursor (Point_text pt) (Point_offset pt) s
      | None \<Rightarrow> s)"

definition Model_getSelection :: "Model \<Rightarrow> fault + (Selection \<times> Model)" where
  "Model_getSelection s =
     (let s' =
        (if length (content s) = 0 then
           (let (newParagraph, s1) = new_Paragraph s;
                (newText, s2) = new_Text (OfParagraph newParagraph) [] s1;
                s3 = Paragraph_addContent newParagraph (TextRef newText) s2;
                s4 = Model_addParagraph newParagraph s3
            in Model_moveCursor (Some (Point newText 0)) s4)
         else s)
      in andThen (thrownAt s' (Selection_ofDomSelection s')) (\<lambda>selection. Inr (selection, s')))"

definition Model_insertNewParagraph :: "Model \<Rightarrow> fault + Model" where
  "Model_insertNewParagraph s =
     andThen (Model_getSelection s) (\<lambda>(selection, s1).
     andThen (if Selection_isRange selection
              then andThen (Selection_remove selection s1) (\<lambda>(point, s'). Inr s')
              else Inr s1) (\<lambda>s2.
     (let t = Point_text (sel_start selection);
          offset = Point_offset (sel_start selection);
          (newParagraph, s3) = new_Paragraph s2
      in andThen (Model_insertParagraphBefore newParagraph (Text_containingParagraph s3 t) s3) (\<lambda>s4.
         andThen (Paragraph_splitTo (Text_containingParagraph s4 t) newParagraph t offset s4)
           (\<lambda>(point, s5). Inr (Model_moveCursor (Some point) s5))))))"

definition Model_insertChar :: "string \<Rightarrow> Model \<Rightarrow> fault + Model" where
  "Model_insertChar char s =
     andThen (Model_getSelection s) (\<lambda>(selection, s1).
     andThen (if Selection_isRange selection
              then andThen (Selection_remove selection s1) (\<lambda>(point, s'). Inr s')
              else Inr s1) (\<lambda>s2.
     (let (point, s3) = Text_insertChar (Point_text (sel_start selection)) char
                          (Point_offset (sel_start selection)) s2
      in Inr (Model_moveCursor (Some point) s3))))"

definition Model_removeNextChar :: "Model \<Rightarrow> fault + Model" where
  "Model_removeNextChar s =
     andThen (Model_getSelection s) (\<lambda>(selection, s1).
       if Selection_isRange selection then
         andThen (Selection_remove selection s1) (\<lambda>(point, s2). Inr (Model_moveCursor point s2))
       else
         andThen (Text_removeNextChar (Point_text (sel_start selection))
                    (Point_offset (sel_start selection)) s1)
           (\<lambda>(point, s2). Inr (Model_moveCursor point s2)))"

definition Model_removePreviousChar :: "Model \<Rightarrow> fault + Model" where
  "Model_removePreviousChar s =
     andThen (Model_getSelection s) (\<lambda>(selection, s1).
       if Selection_isRange selection then
         andThen (Selection_remove selection s1) (\<lambda>(point, s2). Inr (Model_moveCursor point s2))
       else
         andThen (Text_removePreviousChar (Point_text (sel_start selection))
                    (Point_offset (sel_start selection)) s1)
           (\<lambda>(point, s2). Inr (Model_moveCursor point s2)))"

definition Model_updateSelection :: "Model \<Rightarrow> fault + Model" where
  "Model_updateSelection s =
     andThen (Model_getSelection s) (\<lambda>(selection, s1).
       Inr (s1\<lparr>linkableSelection := Selection_linkable s1 selection,
               linkedSelection := Selection_link s1 selection\<rparr>))"

definition Model_removeLinkSelections :: "Model \<Rightarrow> Model" where
  "Model_removeLinkSelections s = s\<lparr>linkableSelection := None, linkedSelection := None\<rparr>"

definition Model_link :: "string \<Rightarrow> Model \<Rightarrow> fault + Model" where
  "Model_link target s =
     (case linkableSelection s of
        None \<Rightarrow> Inl (IllegalState, s)
      | Some sel \<Rightarrow>
          (let start = ls_start sel;
               end' = ls_end sel;
               cursor = ls_cursor sel;
               t = ls_text sel;
               paragraph = Text_containingParagraph s t;
               (selectionAsLink, s1) =
                 new_Link paragraph (substring (Text_content (texts s t)) start end') (Some target) s
           in andThen
                (if start > 0 then
                   (let (leading, s') = new_Text (OfParagraph paragraph)
                                         (substring (Text_content (texts s1 t)) 0 start) s1
                    in Paragraph_addContentBefore paragraph (TextRef leading) (TextRef t) s')
                 else Inr s1) (\<lambda>s2.
              andThen (Paragraph_addContentBefore paragraph (LinkRef selectionAsLink) (TextRef t) s2) (\<lambda>s3.
              andThen
                (if end' < Text_length s3 t then
                   (let (trailing, s') = new_Text (OfParagraph paragraph)
                                        (substring (Text_content (texts s3 t)) end' (Text_length s3 t)) s3
                    in Paragraph_addContentBefore paragraph (TextRef trailing) (TextRef t) s')
                 else Inr s3) (\<lambda>s4.
              andThen (Text_remove t s4) (\<lambda>(point, s5).
              Model_updateSelection
                (Model_moveCursor
                   (Some (Point (Link_text (links s5 selectionAsLink)) (roundToDouble (cursor - start))))
                   s5)))))))"

definition Model_unlink :: "Model \<Rightarrow> fault + Model" where
  "Model_unlink s =
     (case linkedSelection s of
        None \<Rightarrow> Inl (IllegalState, s)
      | Some sel \<Rightarrow>
          (let link = ls_link sel;
               paragraph = Link_parent (links s link);
               (linkAsText, s1) = new_Text (OfParagraph paragraph) (Content_content s (LinkRef link)) s
           in andThen (Paragraph_addContentBefore paragraph (TextRef linkAsText) (LinkRef link) s1) (\<lambda>s2.
              andThen (Link_remove link s2) (\<lambda>s3.
              andThen (Paragraph_mergeConsecutiveTexts paragraph
                         (Point linkAsText (ls_link_cursor sel)) s3) (\<lambda>s4.
              Model_updateSelection s4)))))"

subsection \<open>Markdown\<close>

definition Text_toMarkdown :: "Model \<Rightarrow> ref \<Rightarrow> string" where
  "Text_toMarkdown s t = Text_content (texts s t)"

text \<open>A template literal prints \<^verbatim>\<open>null\<close> as the four letters.\<close>

definition Link_toMarkdown :: "Model \<Rightarrow> ref \<Rightarrow> string" where
  "Link_toMarkdown s l =
     ''['' @ Content_content s (LinkRef l) @ '']('' @
     (case Link_target (links s l) of Some target \<Rightarrow> target | None \<Rightarrow> ''null'') @ '')''"

definition Content_toMarkdown :: "Model \<Rightarrow> Content \<Rightarrow> string" where
  "Content_toMarkdown s c =
     (case c of TextRef t \<Rightarrow> Text_toMarkdown s t | LinkRef l \<Rightarrow> Link_toMarkdown s l)"

definition Paragraph_toMarkdown :: "Model \<Rightarrow> ref \<Rightarrow> string" where
  "Paragraph_toMarkdown s p =
     [CHR 10, CHR 10] @ concat (map (Content_toMarkdown s) (Paragraph_content (paragraphs s p)))"

definition Model_toMarkdown :: "Model \<Rightarrow> string" where
  "Model_toMarkdown s = trim (concat (map (Paragraph_toMarkdown s) (content s)))"

text \<open>A node of the tree that the CommonMark parser returns: its type, its literal and
  its destination (either may be \<^verbatim>\<open>null\<close>), and its children.

  Modelled from the spec: \<^verbatim>\<open>children\<close> of \<^verbatim>\<open>utils/markdown\<close> is not among the sources;
  it gives the child nodes in order.\<close>

datatype MarkdownNode =
  MarkdownNode (node_type: string) (literal: "string option") (destination: "string option")
    (children: "MarkdownNode list")

text \<open>\<^verbatim>\<open>null\<close> is falsy as the empty string is, so the setter of \<^verbatim>\<open>Text.content\<close>
  stores one space for both.\<close>

definition literalOrEmpty :: "MarkdownNode \<Rightarrow> string" where
  "literalOrEmpty n = (case literal n of Some v \<Rightarrow> v | None \<Rightarrow> [])"

definition Text_ofMarkdown :: "Parent \<Rightarrow> MarkdownNode \<Rightarrow> Model \<Rightarrow> fault + (ref \<times> Model)" where
  "Text_ofMarkdown parent n s =
     (if node_type n \<noteq> ''text'' then Inl (NotAText, s)
      else Inr (new_Text parent (literalOrEmpty n) s))"

text \<open>The first throw of \<^verbatim>\<open>Link.ofMarkdown\<close> has the message of a paragraph.\<close>

definition Link_ofMarkdown :: "ref \<Rightarrow> MarkdownNode \<Rightarrow> Model \<Rightarrow> fault + (ref \<times> Model)" where
  "Link_ofMarkdown parent n s =
     (if node_type n \<noteq> ''link'' then Inl (NotAParagraph, s)
      else if length (children n) \<noteq> 1 then Inl (NotASingleChild, s)
      else Inr (new_Link parent (literalOrEmpty (children n ! 0)) (destination n) s))"

fun Paragraph_ofMarkdown_loop :: "ref \<Rightarrow> MarkdownNode list \<Rightarrow> Model \<Rightarrow> fault + Model" where
  "Paragraph_ofMarkdown_loop result [] s = Inr s"
| "Paragraph_ofMarkdown_loop result (child # rest) s =
     andThen
       (if node_type child = ''link''
        then andThen (Link_ofMarkdown result child s) (\<lambda>(l, s1). Inr (LinkRef l, s1))
        else andThen (Text_ofMarkdown (OfParagraph result) child s) (\<lambda>(t, s1). Inr (TextRef t, s1)))
       (\<lambda>(c, s1). Paragraph_ofMarkdown_loop result rest (Paragraph_addContent result c s1))"

definition Paragraph_ofMarkdown :: "MarkdownNode \<Rightarrow> Model \<Rightarrow> fault + (ref \<times> Model)" where
  "Paragraph_ofMarkdown paragraphNode s =
     (if node_type paragraphNode \<noteq> ''paragraph'' then Inl (NotAParagraph, s)
      else
        (let (result, s1) = new_Paragraph s
         in andThen (Paragraph_ofMarkdown_loop result (children paragraphNode) s1)
              (\<lambda>s2. Inr (result, s2))))"

fun Model_ofMarkdown_loop :: "MarkdownNode list \<Rightarrow> Model \<Rightarrow> fault + Model" where
  "Model_ofMarkdown_loop [] s = Inr s"
| "Model_ofMarkdown_loop (paragraphNode # rest) s =
     andThen (Paragraph_ofMarkdown paragraphNode s) (\<lambda>(p, s1).
       Model_ofMarkdown_loop rest (Model_addParagraph p s1))"

text \<open>\<^verbatim>\<open>new Model(container)\<close>: no paragraph and no link selection. The tables hold no
  object yet; the selection of the editable element is wherever the host has it.\<close>

definition new_Model :: "(ref \<times> int) \<times> (ref \<times> int) \<Rightarrow> Model" where
  "new_Model hostSelection =
     \<lparr>content = [], linkableSelection = None, linkedSelection = None,
      texts = (\<lambda>r. \<lparr>Text_parent = OfParagraph 0, Text_content = []\<rparr>),
      links = (\<lambda>r. \<lparr>Link_parent = 0, Link_text = 0, Link_target = None\<rparr>),
      paragraphs = (\<lambda>r. \<lparr>Paragraph_content = []\<rparr>),
      nextText = 0, nextLink = 0, nextParagraph = 0,
      domSelection = hostSelection\<rparr>"

definition Model_ofMarkdown :: "(ref \<times> int) \<times> (ref \<times> int) \<Rightarrow> MarkdownNode \<Rightarrow> fault + Model" where
  "Model_ofMarkdown hostSelection documentNode =
     (if node_type documentNode \<noteq> ''document'' then Inl (NotADocument, new_Model hostSelection)
      else Model_ofMarkdown_loop (children documentNode) (new_Model hostSelection))"

subsection \<open>Sequences of operations\<close>

text \<open>The events that reach the model: the commands of the component, the host moving
  its selection, and \<^verbatim>\<open>Selection.remove\<close> on the current selection.\<close>

datatype command =
    InsertChar string
  | InsertNewParagraph
  | RemoveNextChar
  | RemovePreviousChar
  | SelectionRemove
  | LinkTo string
  | Unlink
  | UpdateSelection
  | RemoveLinkSelections
  | HostSelects "(ref \<times> int) \<times> (ref \<times> int)"

definition step :: "command \<Rightarrow> Model \<Rightarrow> fault + Model" where
  "step c s =
     (case c of
        InsertChar char \<Rightarrow> Model_insertChar char s
      | InsertNewParagraph \<Rightarrow> Model_insertNewParagraph s
      | RemoveNextChar \<Rightarrow> Model_removeNextChar s
      | RemovePreviousChar \<Rightarrow> Model_removePreviousChar s
      | SelectionRemove \<Rightarrow>
          andThen (Model_getSelection s) (\<lambda>(selection, s1).
          andThen (Selection_remove selection s1) (\<lambda>(point, s2). Inr s2))
      | LinkTo target \<Rightarrow> Model_link target s
      | Unlink \<Rightarrow> Model_unlink s
      | UpdateSelection \<Rightarrow> Model_updateSelection s
      | RemoveLinkSelections \<Rightarrow> Inr (Model_removeLinkSelections s)
      | HostSelects sel \<Rightarrow> Inr (s\<lparr>domSelection := sel\<rparr>))"

fun run :: "command list \<Rightarrow> Model \<Rightarrow> fault + Model" where
  "run [] s = Inr s"
| "run (c # cs) s = andThen (step c s) (run cs)"

subsection \<open>Observations\<close>

text \<open>The strings of the content nodes of a paragraph, in order; the text of a paragraph
  (its strings, joined); and the strings of every paragraph of the document.\<close>

definition paragraphTexts :: "Model \<Rightarrow> ref \<Rightarrow> string list" where
  "paragraphTexts s p = map (Content_content s) (Paragraph_content (paragraphs s p))"

definition paragraphText :: "Model \<Rightarrow> ref \<Rightarrow> string" where
  "paragraphText s p = concat (paragraphTexts s p)"

definition documentTexts :: "Model \<Rightarrow> string list list" where
  "documentTexts s = map (paragraphTexts s) (content s)"

subsection \<open>Well-formed stores\<close>

text \<open>An object exists when its reference is below the next free one. In a well-formed
  store the paragraphs of the document exist; the content nodes of an existing paragraph
  exist; an existing link and its text run point at each other, and no other run has
  that link as its parent; and, what the non-empty invariants say, an existing paragraph
  has content and an existing text run has a character. The set \<open>Q\<close> holds the
  paragraphs that a method has created and not filled yet.\<close>

definition allocatedContent :: "Model \<Rightarrow> Content \<Rightarrow> bool" where
  "allocatedContent s c = (case c of TextRef t \<Rightarrow> t < nextText s | LinkRef l \<Rightarrow> l < nextLink s)"

definition storeInvariant :: "ref set \<Rightarrow> Model \<Rightarrow> bool" where
  "storeInvariant Q s \<longleftrightarrow>
     (\<forall>p \<in> set (content s). p < nextParagraph s) \<and>
     (\<forall>p < nextParagraph s.
        (p \<notin> Q \<longrightarrow> Paragraph_content (paragraphs s p) \<noteq> []) \<and>
        (\<forall>c \<in> set (Paragraph_content (paragraphs s p)). allocatedContent s c)) \<and>
     (\<forall>l < nextLink s.
        Link_text (links s l) < nextText s \<and>
        Text_parent (texts s (Link_text (links s l))) = OfLink l) \<and>
     (\<forall>t < nextText s.
        Text_content (texts s t) \<noteq> [] \<and>
        (\<forall>l. Text_parent (texts s t) = OfLink l \<longrightarrow> l < nextLink s \<and> Link_text (links s l) = t))"

definition wellFormed :: "Model \<Rightarrow> bool" where
  "wellFormed s = storeInvariant {} s"

text \<open>The non-empty invariants, for the paragraphs of the document and what they hold:
  the paragraph has a content node; the text run of every content node has a character;
  and the text runs whose parent is a link of the paragraph are exactly one, the link's
  own.\<close>

definition nonEmptyInvariants :: "Model \<Rightarrow> bool" where
  "nonEmptyInvariants s \<longleftrightarrow>
     (\<forall>p \<in> set (content s).
        length (Paragraph_content (paragraphs s p)) \<ge> 1 \<and>
        (\<forall>c \<in> set (Paragraph_content (paragraphs s p)).
           length (Content_content s c) \<ge> 1 \<and>
           (\<forall>l. c = LinkRef l \<longrightarrow>
              {t. t < nextText s \<and> Text_parent (texts s t) = OfLink l} = {Link_text (links s l)})))"

subsection \<open>Splitting a paragraph and combining the two parts\<close>

text \<open>\<^verbatim>\<open>splitTo\<close> has one caller, \<^verbatim>\<open>insertNewParagraph\<close>, which creates the prefix paragraph
  and inserts it into the document before the paragraph it splits. This is that
  sequence, followed at once by \<^verbatim>\<open>combineWith\<close> of the prefix paragraph with the
  paragraph that was split; it returns the prefix paragraph.\<close>

definition splitThenCombine :: "ref \<Rightarrow> ref \<Rightarrow> int \<Rightarrow> Model \<Rightarrow> fault + (ref \<times> Model)" where
  "splitThenCombine p fromText fromOffset s =
     (let (prependingParagraph, s1) = new_Paragraph s
      in andThen (Model_insertParagraphBefore prependingParagraph p s1) (\<lambda>s2.
         andThen (Paragraph_splitTo p prependingParagraph fromText fromOffset s2) (\<lambda>(point, s3).
         andThen (Paragraph_combineWith prependingParagraph p s3) (\<lambda>(point', s4).
           Inr (prependingParagraph, s4)))))"

definition textAfterSplitThenCombine :: "ref \<Rightarrow> ref \<Rightarrow> int \<Rightarrow> Model \<Rightarrow> error + string" where
  "textAfterSplitThenCombine p fromText fromOffset s =
     andThen (errorOf (splitThenCombine p fromText fromOffset s))
       (\<lambda>(q, s'). Inr (paragraphText s' q))"

text \<open>A paragraph owns its content when its content nodes are different objects with
  different text runs and each has the paragraph as its parent, as the constructors and
  \<^verbatim>\<open>copyToParent\<close> make them.\<close>

definition parentIs :: "Model \<Rightarrow> ref \<Rightarrow> Content \<Rightarrow> bool" where
  "parentIs s p c =
     (case c of TextRef t \<Rightarrow> Text_parent (texts s t) = OfParagraph p
              | LinkRef l \<Rightarrow> Link_parent (links s l) = p)"

definition ownsContent :: "Model \<Rightarrow> ref \<Rightarrow> bool" where
  "ownsContent s p \<longleftrightarrow>
     distinct (map (Content_text s) (Paragraph_content (paragraphs s p))) \<and>
     (\<forall>c \<in> set (Paragraph_content (paragraphs s p)). parentIs s p c)"

text \<open>The text of the plain text run at the end of a list of content nodes, empty when
  the list is empty or ends with a link: \<^verbatim>\<open>appendText\<close> appends to that run.\<close>

definition precedingPlainText :: "Model \<Rightarrow> Content list \<Rightarrow> string" where
  "precedingPlainText s xs =
     (if xs \<noteq> [] \<and> isText (last xs) then Content_content s (last xs) else [])"

text \<open>The round that both loops share, \<^verbatim>\<open>addContent(content.copyToParent(this))\<close>, the
  loop of such rounds, and the node that a round creates.\<close>

definition copyAdd :: "ref \<Rightarrow> Content \<Rightarrow> Model \<Rightarrow> Model" where
  "copyAdd this c s =
     (let (c', s1) = Content_copyToParent c this s in Paragraph_addContent this c' s1)"

fun copyAll :: "ref \<Rightarrow> Content list \<Rightarrow> Model \<Rightarrow> Model" where
  "copyAll this [] s = s"
| "copyAll this (c # cs) s = copyAll this cs (copyAdd this c s)"

definition copyOf :: "Model \<Rightarrow> Content \<Rightarrow> Content" where
  "copyOf s c = (case c of TextRef t \<Rightarrow> TextRef (nextText s) | LinkRef l \<Rightarrow> LinkRef (nextLink s))"

text \<open>For the proofs: a later store keeps the objects of an earlier one; the nodes \<open>zs\<close>
  are fresh copies of the nodes \<open>xs\<close>; what a content node shows (its kind and its
  string); the invariant of the two paragraphs while one is split into the other; and
  what \<^verbatim>\<open>appendText\<close> does to what a paragraph shows.\<close>

definition keeps :: "Model \<Rightarrow> Model \<Rightarrow> bool" where
  "keeps s s' \<longleftrightarrow>
     nextText s \<le> nextText s' \<and> nextLink s \<le> nextLink s' \<and>
     nextParagraph s' = nextParagraph s \<and> content s' = content s \<and>
     (\<forall>t < nextText s. texts s' t = texts s t) \<and>
     (\<forall>l < nextLink s. links s' l = links s l)"

definition copies :: "Model \<Rightarrow> Model \<Rightarrow> ref \<Rightarrow> Content list \<Rightarrow> Content list \<Rightarrow> bool" where
  "copies s s' p xs zs \<longleftrightarrow>
     map isText zs = map isText xs \<and>
     map (Content_content s') zs = map (Content_content s) xs \<and>
     distinct (map (Content_text s') zs) \<and>
     (\<forall>z \<in> set zs. nextText s \<le> Content_text s' z \<and> allocatedContent s' z \<and> parentIs s' p z)"

definition view :: "Model \<Rightarrow> Content \<Rightarrow> bool \<times> string" where
  "view s c = (isText c, Content_content s c)"

definition paragraphView :: "Model \<Rightarrow> ref \<Rightarrow> (bool \<times> string) list" where
  "paragraphView s p = map (view s) (Paragraph_content (paragraphs s p))"

definition splitInv :: "Model \<Rightarrow> ref \<Rightarrow> ref \<Rightarrow> bool" where
  "splitInv s pre p \<longleftrightarrow>
     storeInvariant {pre} s \<and> pre < nextParagraph s \<and> p < nextParagraph s \<and> pre \<noteq> p \<and>
     distinct (map (Content_text s)
       (Paragraph_content (paragraphs s pre) @ Paragraph_content (paragraphs s p))) \<and>
     (\<forall>c \<in> set (Paragraph_content (paragraphs s p)). parentIs s p c)"

definition appendView :: "(bool \<times> string) list \<Rightarrow> string \<Rightarrow> (bool \<times> string) list" where
  "appendView V v =
     (if V \<noteq> [] \<and> fst (last V) then butlast V @ [(True, snd (last V) @ v)]
      else V @ [(True, if v = [] then '' '' else v)])"

subsection \<open>Example documents\<close>

definition textNode :: "string \<Rightarrow> MarkdownNode" where
  "textNode v = MarkdownNode ''text'' (Some v) None []"

definition linkNode :: "string \<Rightarrow> MarkdownNode list \<Rightarrow> MarkdownNode" where
  "linkNode target ns = MarkdownNode ''link'' None (Some target) ns"

definition paragraphNode :: "MarkdownNode list \<Rightarrow> MarkdownNode" where
  "paragraphNode ns = MarkdownNode ''paragraph'' None None ns"

definition documentNode :: "MarkdownNode list \<Rightarrow> MarkdownNode" where
  "documentNode ns = MarkdownNode ''document'' None None ns"

text \<open>The model that \<^verbatim>\<open>Model.ofMarkdown\<close> builds from a tree it accepts, with the host
  selection collapsed at the start of the first text run created.\<close>

definition parsed :: "MarkdownNode \<Rightarrow> Model" where
  "parsed n =
     (case Model_ofMarkdown ((0, 0), (0, 0)) n of
        Inr s \<Rightarrow> s
      | Inl e \<Rightarrow> new_Model ((0, 0), (0, 0)))"

text \<open>What a method returned, and the strings of the document after it, for stating
  examples.\<close>

definition returned :: "fault + ('a \<times> Model) \<Rightarrow> error + 'a" where
  "returned r = andThen (errorOf r) (\<lambda>(x, s). Inr x)"

definition textsAfter :: "fault + ('a \<times> Model) \<Rightarrow> error + string list list" where
  "textsAfter r = andThen (errorOf r) (\<lambda>(x, s). Inr (documentTexts s))"

definition textsOf :: "fault + Model \<Rightarrow> error + string list list" where
  "textsOf r = andThen (errorOf r) (\<lambda>s. Inr (documentTexts s))"

definition selectionOf :: "fault + Model \<Rightarrow> error + ((ref \<times> int) \<times> (ref \<times> int))" where
  "selectionOf r = andThen (errorOf r) (\<lambda>s. Inr (domSelection s))"

text \<open>The store that a call leaves, whether it returned or threw.\<close>

definition storeAfter :: "fault + Model \<Rightarrow> Model" where
  "storeAfter r = (case r of Inl f \<Rightarrow> snd f | Inr s \<Rightarrow> s)"

text \<open>One paragraph holding the plain run \<^verbatim>\<open>abc\<close>.\<close>

definition abc :: MarkdownNode where
  "abc = documentNode [paragraphNode [textNode ''abc'']]"

text \<open>One paragraph holding the plain run \<^verbatim>\<open>a\<close>; the paragraphs \<^verbatim>\<open>abc\<close> and \<^verbatim>\<open>def\<close>;
  a paragraph holding one space and the paragraph \<^verbatim>\<open>def\<close>; and \<^verbatim>\<open>hello world\<close>.\<close>

definition single :: MarkdownNode where
  "single = documentNode [paragraphNode [textNode ''a'']]"

definition abc_def :: MarkdownNode where
  "abc_def = documentNode [paragraphNode [textNode ''abc''], paragraphNode [textNode ''def'']]"

definition blank_def :: MarkdownNode where
  "blank_def = documentNode [paragraphNode [textNode '' ''], paragraphNode [textNode ''def'']]"

definition hello_world :: MarkdownNode where
  "hello_world = documentNode [paragraphNode [textNode ''hello world'']]"

text \<open>A document of one paragraph that holds one plain text run of one character, and a
  document of one paragraph that holds one plain text run of one space, with the cursor
  at the start of that run.\<close>

definition singleCharDocument :: "Model \<Rightarrow> ref \<Rightarrow> ref \<Rightarrow> bool" where
  "singleCharDocument s p t \<longleftrightarrow>
     content s = [p] \<and> Paragraph_content (paragraphs s p) = [TextRef t] \<and>
     Text_parent (texts s t) = OfParagraph p \<and> length (Text_content (texts s t)) = 1"

definition placeholderDocument :: "Model \<Rightarrow> bool" where
  "placeholderDocument s \<longleftrightarrow>
     (\<exists>p t. content s = [p] \<and> Paragraph_content (paragraphs s p) = [TextRef t] \<and>
        Text_content (texts s t) = '' '' \<and> domSelection s = ((t, 0), (t, 0)))"

text \<open>Two documents as the parser gives them for a link whose label is not plain text:
  \<^verbatim>\<open>[`x`](u)\<close>, whose link holds one code span, and \<^verbatim>\<open>[*a*](u)\<close>, whose link holds one
  emphasis node that holds the text.\<close>

definition code_link :: MarkdownNode where
  "code_link =
     documentNode [paragraphNode [linkNode ''u'' [MarkdownNode ''code'' (Some ''x'') None []]]]"

definition emph_link :: MarkdownNode where
  "emph_link =
     documentNode [paragraphNode
       [linkNode ''u'' [MarkdownNode ''emph'' None None [textNode ''a'']]]]"

text \<open>A second paragraph that mixes plain runs and links: \<^verbatim>\<open>ab [cd](u) ef[gh](v)[ij](w)\<close>.\<close>

definition mixed :: MarkdownNode where
  "mixed = documentNode [paragraphNode [textNode ''first''],
      paragraphNode [textNode ''ab '', linkNode ''u'' [textNode ''cd''], textNode '' ef'',
                     linkNode ''v'' [textNode ''gh''], linkNode ''w'' [textNode ''ij'']]]"

text \<open>One paragraph holding the link \<^verbatim>\<open>[ab](u)\<close>, and one holding the plain run \<^verbatim>\<open> ab\<close>
  with a leading space.\<close>

definition link_ab :: MarkdownNode where
  "link_ab = documentNode [paragraphNode [linkNode ''u'' [textNode ''ab'']]]"

definition blank_ab :: MarkdownNode where
  "blank_ab = documentNode [paragraphNode [textNode '' ab'']]"

text \<open>The trees that \<^verbatim>\<open>Model.ofMarkdown\<close> takes without a throw, read off its checks: a
  document of paragraphs, each child of a paragraph a text node or a link with one child
  (of whatever type). \<open>inlineText\<close> is the string of the text run made for such a child:
  its literal, or that of the link's child, and one space for an empty or missing one.\<close>

definition acceptedInline :: "MarkdownNode \<Rightarrow> bool" where
  "acceptedInline n \<longleftrightarrow>
     (if node_type n = ''link'' then length (children n) = 1 else node_type n = ''text'')"

definition acceptedParagraph :: "MarkdownNode \<Rightarrow> bool" where
  "acceptedParagraph n \<longleftrightarrow> node_type n = ''paragraph'' \<and> (\<forall>c \<in> set (children n). acceptedInline c)"

definition acceptedDocument :: "MarkdownNode \<Rightarrow> bool" where
  "acceptedDocument n \<longleftrightarrow> node_type n = ''document'' \<and> (\<forall>p \<in> set (children n). acceptedParagraph p)"

definition inlineText :: "MarkdownNode \<Rightarrow> string" where
  "inlineText n =
     (let v = literalOrEmpty (if node_type n = ''link'' then children n ! 0 else n)
      in if v = [] then '' '' else v)"

text \<open>\<^verbatim>\<open>hello world\<close> after the host has put the cursor inside \<^verbatim>\<open>hello\<close> and the selection
  was read, and after that word was made a link.\<close>

definition wordSelected :: Model where
  "wordSelected = storeAfter (run [HostSelects ((0, 2), (0, 2)), UpdateSelection] (parsed hello_world))"

definition wordLinked :: Model where
  "wordLinked = storeAfter (run [HostSelects ((0, 2), (0, 2)), UpdateSelection, LinkTo ''http://x'']
     (parsed hello_world))"

section \<open>Properties\<close>

subsection \<open>Sequencing\<close>

lemma andThen_Inl [simp]: "andThen (Inl e) f = Inl e"
  by (simp add: andThen_def)

lemma andThen_Inr [simp]: "andThen (Inr x) f = f x"
  by (simp add: andThen_def)

lemma thrownAt_simps [simp]:
  "thrownAt s (Inr x) = Inr x"
  "thrownAt s (Inl e) = Inl (e, s)"
  "thrownAt s r = Inr x \<longleftrightarrow> r = Inr x"
  "thrownAt s r = Inl f \<longleftrightarrow> r = Inl (fst f) \<and> snd f = s"
  by (cases r; cases f; auto simp: thrownAt_def)+

lemma thrown_simps [simp]:
  "thrown (Inr x) = None"
  "thrown (Inl (e, s)) = Some e"
  "thrown (Inl f) = Some (fst f)"
  by (simp_all add: thrown_def)

lemma errorOf_simps [simp]:
  "errorOf (Inr x) = Inr x"
  "errorOf (Inl f) = Inl (fst f)"
  by (simp_all add: errorOf_def)

lemma storeAfter_simps [simp]:
  "storeAfter (Inr s) = s"
  "storeAfter (Inl f) = snd f"
  by (simp_all add: storeAfter_def)

lemma thrown_eq_Some: "thrown r = Some e \<longleftrightarrow> (\<exists>s. r = Inl (e, s))"
  by (cases r) auto

lemma thrown_andThen:
  "thrown (andThen r f) = (case r of Inl x \<Rightarrow> Some (fst x) | Inr x \<Rightarrow> thrown (f x))"
  by (cases r) simp_all

lemma andThen_eq_Inr: "andThen r f = Inr y \<longleftrightarrow> (\<exists>x. r = Inr x \<and> f x = Inr y)"
  by (cases r) simp_all

lemma andThenE:
  assumes "andThen r f = Inr y"
  obtains x where "r = Inr x" and "f x = Inr y"
  using assms by (cases r) auto

lemma andThen_eq_Inl: "andThen r f = Inl e \<longleftrightarrow> r = Inl e \<or> (\<exists>x. r = Inr x \<and> f x = Inl e)"
  by (cases r) simp_all

text \<open>The definitions, for evaluating the model on a concrete document.\<close>

lemmas model_defs =
  isWhiteSpace_def trim_def substring_def substringFrom_def
  remove_def previousOf_def nextOf_def Text_set_content_def
  Text_length_def Text_isInLink_def Text_containingParagraph_def Text_append_def
  new_Text_def new_Link_def new_Paragraph_def Content_text_def
  Content_content_def Content_set_content_def isText_def Content_copyToParent_def
  set_Paragraph_content_def Paragraph_addContent_def Paragraph_addContentBefore_def Paragraph_empty_def
  Model_addParagraph_def Model_insertParagraphBefore_def Model_removeContent_def Paragraph_remove_def
  Paragraph_removeContent_def Link_remove_def Link_removeContent_def Paragraph_lastContent_def
  Paragraph_lastText_def Paragraph_firstContent_def Paragraph_firstText_def Model_getPrecedingText_def
  Model_getFollowingText_def Paragraph_getPrecedingText_def Paragraph_getFollowingText_def Link_getPrecedingText_def
  Link_getFollowingText_def Text_getPrecedingText_def Text_getFollowingText_def Text_remove_def
  Text_removeRange_def Text_removeAfter_def Text_removeBefore_def Text_removeLastCharacter_def
  Text_removeFirstCharacter_def Text_insertChar_def Paragraph_combineWith_def Paragraph_appendText_def
  Content_remove_def Paragraph_splitTo_def moveCursor_def Paragraph_mergeConsecutiveTexts_def
  Text_removeNextChar_def Text_removePreviousChar_def Text_findTextForPath_def Link_findTextForPath_def
  Paragraph_findTextForPath_def Model_findTextForPath_def indicesInParagraph_def DomPath_indicesFromRoot_def
  wordAtOffset_def countTexts_def new_Selection_def createPoint_def
  Selection_ofDomSelection_def Selection_isRange_def Selection_isLinkable_def Selection_isLink_def
  Selection_link_def Selection_linkable_def Selection_remove_def Model_moveCursor_def
  Model_getSelection_def Model_insertNewParagraph_def Model_insertChar_def Model_removeNextChar_def
  Model_removePreviousChar_def Model_updateSelection_def Model_removeLinkSelections_def Model_link_def
  Model_unlink_def Text_toMarkdown_def Link_toMarkdown_def Content_toMarkdown_def
  Paragraph_toMarkdown_def Model_toMarkdown_def literalOrEmpty_def Text_ofMarkdown_def
  Link_ofMarkdown_def Paragraph_ofMarkdown_def new_Model_def Model_ofMarkdown_def
  step_def paragraphTexts_def paragraphText_def documentTexts_def
  textNode_def linkNode_def paragraphNode_def documentNode_def
  parsed_def returned_def textsAfter_def textsOf_def
  selectionOf_def abc_def single_def abc_def_def
  blank_def_def hello_world_def
  allocatedContent_def singleCharDocument_def roundToDouble_def thrownAt_def thrown_def errorOf_def storeAfter_def
  Let_def split_beta

subsection \<open>Substrings\<close>

lemma substring_beyond:
  "int (length v) \<le> a \<Longrightarrow> int (length v) \<le> b \<Longrightarrow> substring v a b = []"
  by (cases v) (auto simp add: substring_def Let_def min_def max_def)

lemma substring_whole: "int (length v) \<le> b \<Longrightarrow> substring v 0 b = v"
  by (cases v) (auto simp add: substring_def Let_def min_def max_def)

lemma substring_take: "0 \<le> b \<Longrightarrow> substring v 0 b = take (nat b) v"
  by (auto simp add: substring_def Let_def min_def max_def)

lemma substring_drop:
  "0 \<le> a \<Longrightarrow> a \<le> int (length v) \<Longrightarrow> substring v a (int (length v)) = drop (nat a) v"
  by (auto simp add: substring_def Let_def min_def max_def)

subsection \<open>The bounds check of removeRange\<close>

lemma Text_getPrecedingText_not_bounds:
  "Text_getPrecedingText s t \<noteq> Inl RemoveRangeNotInBounds"
  by (auto simp: Text_getPrecedingText_def Link_getPrecedingText_def Paragraph_getPrecedingText_def
      Model_getPrecedingText_def Paragraph_lastText_def Paragraph_lastContent_def andThen_eq_Inl Let_def
      split: Parent.splits option.splits if_splits)

lemma Paragraph_removeContent_not_bounds:
  "Paragraph_removeContent p c s \<noteq> Inl (RemoveRangeNotInBounds, s')"
  by (auto simp: Paragraph_removeContent_def Model_removeContent_def Let_def)

lemma Text_remove_not_bounds: "Text_remove t s \<noteq> Inl (RemoveRangeNotInBounds, s')"
  by (auto simp: Text_remove_def andThen_eq_Inl Text_getPrecedingText_not_bounds
      Paragraph_removeContent_not_bounds Link_removeContent_def Link_remove_def
      split: Parent.splits)

text \<open>C6, as the code has it. \<^verbatim>\<open>removeRange(start, end)\<close> throws its bounds error
  exactly when \<open>start < 0\<close> or \<open>end\<close> is above the length of the run. For \<open>start \<le> end\<close>
  that is the same as \<open>start\<close> or \<open>end\<close> lying outside \<open>[0, length]\<close>; a \<open>start\<close> above the
  length or a negative \<open>end\<close> is not checked on its own.\<close>

theorem Text_removeRange_not_in_bounds:
  "(thrown (Text_removeRange t start end' s) = Some RemoveRangeNotInBounds
      \<longleftrightarrow> start < 0 \<or> end' > Text_length s t) \<and>
   (start \<le> end' \<longrightarrow>
      (thrown (Text_removeRange t start end' s) = Some RemoveRangeNotInBounds
         \<longleftrightarrow> start < 0 \<or> start > Text_length s t \<or> end' < 0 \<or> end' > Text_length s t))"
  by (auto simp add: Text_removeRange_def Text_remove_not_bounds Let_def thrown_eq_Some)

theorem Text_removeRange_not_in_bounds_witness:
  "Text_length (parsed abc) 0 = 3 \<and> (1::int) \<le> 5 \<and>
   thrown (Text_removeRange 0 1 5 (parsed abc)) = Some RemoveRangeNotInBounds \<and>
   thrown (Text_removeRange 0 (- 1) 2 (parsed abc)) = Some RemoveRangeNotInBounds \<and>
   thrown (Text_removeRange 0 1 2 (parsed abc)) \<noteq> Some RemoveRangeNotInBounds"
proof -
  have len: "Text_length (parsed abc) 0 = 3"
    by code_simp
  show ?thesis
    using len Text_removeRange_not_in_bounds [of 0 1 5 "parsed abc"]
      Text_removeRange_not_in_bounds [of 0 "- 1" 2 "parsed abc"]
      Text_removeRange_not_in_bounds [of 0 1 2 "parsed abc"]
    by simp
qed

text \<open>C6 as the claim states it fails: on the run \<^verbatim>\<open>abc\<close>, \<^verbatim>\<open>removeRange(5, 2)\<close> has its
  \<open>start\<close> outside \<open>[0, 3]\<close> and \<^verbatim>\<open>removeRange(1, -1)\<close> its \<open>end\<close>, and neither throws: they
  return a Point and leave the run as \<^verbatim>\<open>abcc\<close> and \<^verbatim>\<open>aabc\<close>.\<close>

theorem Text_removeRange_reversed_counterexample:
  "Text_length (parsed abc) 0 = 3 \<and>
   returned (Text_removeRange 0 5 2 (parsed abc)) = Inr (Some (Point 0 5)) \<and>
   textsAfter (Text_removeRange 0 5 2 (parsed abc)) = Inr [[''abcc'']] \<and>
   returned (Text_removeRange 0 1 (- 1) (parsed abc)) = Inr (Some (Point 0 1)) \<and>
   textsAfter (Text_removeRange 0 1 (- 1) (parsed abc)) = Inr [[''aabc'']]"
  by code_simp

subsection \<open>insertChar beyond the end of the run\<close>

lemma bitLength_bounds: "0 < a \<Longrightarrow> 2 ^ (bitLength a - 1) \<le> a \<and> a < 2 ^ bitLength a"
proof (induction a rule: bitLength.induct)
  case (1 a)
  have b: "bitLength a = Suc (bitLength (a div 2))" using 1(2) by (subst bitLength.simps) simp
  show ?case
  proof (cases "a div 2 \<le> 0")
    case True
    with 1(2) have "a = 1" by linarith
    then show ?thesis by (simp add: bitLength.simps[of 1] bitLength.simps[of 0])
  next
    case False
    with 1 have IH: "2 ^ (bitLength (a div 2) - 1) \<le> a div 2" "a div 2 < 2 ^ bitLength (a div 2)"
      by simp_all
    have pos: "bitLength (a div 2) > 0" using False by (subst bitLength.simps) simp
    then obtain k where k: "bitLength (a div 2) = Suc k" by (cases "bitLength (a div 2)") auto
    from IH k have "2 ^ k \<le> a div 2" "a div 2 < 2 ^ Suc k" by simp_all
    then have "2 * 2 ^ k \<le> a" "a < 2 * 2 ^ Suc k" by linarith+
    then show ?thesis by (simp add: b k)
  qed
qed

lemma roundToDouble_exact: "\<bar>x\<bar> \<le> 2 ^ 53 \<Longrightarrow> roundToDouble x = x"
  by (simp add: roundToDouble_def)

lemma roundToDouble_large:
  assumes "2 ^ 53 < x"
  shows "2 ^ 53 \<le> roundToDouble x"
proof -
  have xpos: "0 < x" using assms by (smt (verit) zero_less_power)
  then have ax: "\<bar>x\<bar> = x" by simp
  note B = bitLength_bounds[OF xpos]
  have "(2::int) ^ 53 < 2 ^ bitLength x" using assms B by linarith
  from power_less_imp_less_exp[OF _ this] have bl: "53 < bitLength x" by simp
  define k where "k = bitLength x - 53"
  have bk: "bitLength x - 1 = 52 + k" using bl by (simp add: k_def)
  have "2 ^ 52 * 2 ^ k \<le> x" using B bk by (simp add: power_add)
  then have q: "2 ^ 52 \<le> x div 2 ^ k"
    by (simp add: pos_le_divide_eq zdiv_mono1 div_le_mono)
       (metis nonzero_mult_div_cancel_right power_not_zero zdiv_mono1 zero_less_numeral zero_less_power zero_neq_numeral)
  define m where "m = (if 2 * (x mod 2 ^ k) < 2 ^ k \<or> (2 * (x mod 2 ^ k) = 2 ^ k \<and> even (x div 2 ^ k))
     then x div 2 ^ k else x div 2 ^ k + 1)"
  have mq: "x div 2 ^ k \<le> m" by (simp add: m_def)
  have kpos: "0 < k" using bl by (simp add: k_def)
  have "(2::int) ^ 53 \<le> 2 ^ 52 * 2 ^ k"
    using kpos by (cases k) simp_all
  also have "\<dots> \<le> m * 2 ^ k" using q mq by (simp add: mult_right_mono)
  finally have "(2::int) ^ 53 \<le> m * 2 ^ k" .
  moreover have "roundToDouble x = m * 2 ^ k"
    using assms xpos by (simp add: roundToDouble_def Let_def ax k_def m_def)
  ultimately show ?thesis by simp
qed

text \<open>C10, as the code has it. \<^verbatim>\<open>Text.insertChar\<close> has no throw (the model gives it no
  error result). With an offset above the length of the run it appends the string at the
  end. The Point it returns is in the same run, at \<open>offset + 1\<close> for every offset below
  \<open>2 ^ 53\<close>; for a single character and a run shorter than \<open>2 ^ 53 - 1\<close> that offset is above
  the new length of the run, whatever the offset.\<close>

theorem Text_insertChar_beyond_end:
  assumes "offset > Text_length s t" and "Text_content (texts s t) \<noteq> []"
  shows "Text_content (texts (snd (Text_insertChar t ch offset s)) t) = Text_content (texts s t) @ ch \<and>
         Point_text (fst (Text_insertChar t ch offset s)) = t \<and>
         (offset < 2 ^ 53 \<longrightarrow> fst (Text_insertChar t ch offset s) = Point t (offset + 1)) \<and>
         (length ch \<le> 1 \<and> Text_length s t + 1 < 2 ^ 53 \<longrightarrow>
            Point_offset (fst (Text_insertChar t ch offset s))
              > Text_length (snd (Text_insertChar t ch offset s)) t)"
proof -
  have len0: "0 \<le> Text_length s t" by (simp add: Text_length_def)
  have content: "Text_content (texts (snd (Text_insertChar t ch offset s)) t)
      = Text_content (texts s t) @ ch"
    using assms
    by (simp add: Text_insertChar_def Let_def Text_length_def substring_beyond substring_whole
        Text_set_content_def)
  have pt: "fst (Text_insertChar t ch offset s) = Point t (roundToDouble (offset + 1))"
    by (simp add: Text_insertChar_def Let_def)
  have small: "roundToDouble (offset + 1) = offset + 1" if "offset < 2 ^ 53"
    using that assms(1) len0 by (intro roundToDouble_exact) simp
  have newlen: "Text_length (snd (Text_insertChar t ch offset s)) t
      = Text_length s t + int (length ch)"
    using content by (simp add: Text_length_def)
  have above: "Text_length s t + 1 < roundToDouble (offset + 1)" if "Text_length s t + 1 < 2 ^ 53"
  proof (cases "offset < 2 ^ 53")
    case True
    then show ?thesis using small assms(1) by simp
  next
    case False
    then have "2 ^ 53 < offset + 1" by simp
    from roundToDouble_large[OF this] that show ?thesis by simp
  qed
  show ?thesis
    using content pt small above newlen by auto
qed

theorem Text_insertChar_beyond_end_witness:
  "Text_length (parsed abc) 0 = 3 \<and>
   fst (Text_insertChar 0 ''x'' 7 (parsed abc)) = Point 0 8 \<and>
   Text_content (texts (snd (Text_insertChar 0 ''x'' 7 (parsed abc))) 0) = ''abcx'' \<and>
   Text_length (snd (Text_insertChar 0 ''x'' 7 (parsed abc))) 0 = 4"
proof -
  have len: "Text_length (parsed abc) 0 = 3" and c: "Text_content (texts (parsed abc) 0) = ''abc''"
    by code_simp+
  have "Text_length (parsed abc) 0 < 7" "Text_content (texts (parsed abc) 0) \<noteq> []"
    using len c by simp_all
  from Text_insertChar_beyond_end [OF this, of "''x''"] show ?thesis
    using len c by (simp add: Text_length_def)
qed

text \<open>C10 as the claim states it fails at the offset \<open>2 ^ 53\<close>: the sum \<open>2 ^ 53 + 1\<close> is not a
  double, and the Point that \<^verbatim>\<open>insertChar\<close> returns on the run \<^verbatim>\<open>abc\<close> has the offset
  \<open>2 ^ 53\<close>.\<close>

theorem Text_insertChar_beyond_end_counterexample:
  "Text_length (parsed abc) 0 = 3 \<and>
   fst (Text_insertChar 0 ''x'' 9007199254740992 (parsed abc)) = Point 0 9007199254740992 \<and>
   Text_content (texts (snd (Text_insertChar 0 ''x'' 9007199254740992 (parsed abc))) 0) = ''abcx''"
  by code_simp

subsection \<open>Which errors a method can throw\<close>

lemma Text_getPrecedingText_error:
  "Text_getPrecedingText s t = Inl e \<Longrightarrow> e = NoContentInParagraph"
  by (auto simp: Text_getPrecedingText_def Link_getPrecedingText_def Paragraph_getPrecedingText_def
      Model_getPrecedingText_def Paragraph_lastText_def Paragraph_lastContent_def andThen_eq_Inl Let_def
      split: Parent.splits option.splits if_splits)

lemma Text_getFollowingText_error:
  "Text_getFollowingText s t = Inl e \<Longrightarrow> e = NoContentInParagraph"
  by (auto simp: Text_getFollowingText_def Link_getFollowingText_def Paragraph_getFollowingText_def
      Model_getFollowingText_def Paragraph_firstText_def Paragraph_firstContent_def andThen_eq_Inl Let_def
      split: Parent.splits option.splits if_splits)

lemma Paragraph_removeContent_error:
  "Paragraph_removeContent p c s = Inl e \<Longrightarrow> fst e = NotFoundError"
  by (auto simp: Paragraph_removeContent_def Model_removeContent_def Let_def split: if_splits)

lemma Paragraph_addContentBefore_error:
  "Paragraph_addContentBefore p c r s = Inl e \<Longrightarrow> fst e = NotFoundError"
  by (auto simp: Paragraph_addContentBefore_def Let_def split: if_splits)

lemma Text_remove_error:
  "Text_remove t s = Inl e \<Longrightarrow> fst e \<in> {NoContentInParagraph, NotFoundError, IllegalArgument}"
  by (auto simp: Text_remove_def andThen_eq_Inl Link_removeContent_def Link_remove_def
      dest: Text_getPrecedingText_error Paragraph_removeContent_error
      split: Parent.splits if_splits)

lemma textBetween_loop_error:
  "textBetween_loop fuel s startText t acc = Inl e \<Longrightarrow>
     e \<in> {TypeError, OutOfFuel, NoContentInParagraph}"
proof (induction fuel arbitrary: t acc)
  case 0
  then show ?case by simp
next
  case (Suc fuel)
  then show ?case
    by (auto simp: andThen_eq_Inl dest: Text_getPrecedingText_error split: option.splits if_splits)
qed

subsection \<open>Resolving the host selection\<close>

lemma indexOfMapped_Some:
  "indexOfMapped xs f item = Some j \<Longrightarrow> j < length xs \<and> f (xs ! j) = item"
proof (induction xs arbitrary: j)
  case Nil
  then show ?case by simp
next
  case (Cons x xs)
  then show ?case
    by (cases "f x = item") (auto simp: nth_Cons split: nat.splits)
qed

lemma indicesFromRoot_loop_Some:
  "indicesFromRoot_loop s ps i node = Some path \<Longrightarrow>
     \<exists>k rest. path = (i + k) # rest \<and> k < length ps \<and> indicesInParagraph s (ps ! k) node = Some rest"
proof (induction ps arbitrary: i)
  case Nil
  then show ?case by simp
next
  case (Cons p ps)
  show ?case
  proof (cases "indicesInParagraph s p node")
    case None
    with Cons.prems have "indicesFromRoot_loop s ps (Suc i) node = Some path" by simp
    from Cons.IH [OF this] obtain k rest where
      "path = (Suc i + k) # rest" "k < length ps" "indicesInParagraph s (ps ! k) node = Some rest"
      by blast
    then show ?thesis
      by (intro exI [of _ "Suc k"] exI [of _ rest]) simp
  next
    case (Some rest)
    with Cons.prems show ?thesis
      by (intro exI [of _ 0] exI [of _ rest]) simp
  qed
qed

lemma Paragraph_findTextForPath_indices:
  "indicesInParagraph s p node = Some rest \<Longrightarrow> Paragraph_findTextForPath s p rest = Inr node"
  by (auto simp: indicesInParagraph_def Paragraph_findTextForPath_def Text_findTextForPath_def
      Link_findTextForPath_def Content_text_def
      dest!: indexOfMapped_Some split: option.splits Content.splits)

text \<open>The address that the host gives for a text node leads \<^verbatim>\<open>findTextForPath\<close> back to
  the text run of that node.\<close>

lemma createPoint_cases:
  "createPoint s (node, offset) = Inr (Point node offset) \<or>
   createPoint s (node, offset) = Inl NotInDocument"
proof (cases "indicesFromRoot_loop s (content s) 0 node")
  case None
  then show ?thesis by (simp add: createPoint_def DomPath_indicesFromRoot_def)
next
  case (Some path)
  from indicesFromRoot_loop_Some [OF this] obtain k rest where
    "path = k # rest" "k < length (content s)" "indicesInParagraph s (content s ! k) node = Some rest"
    by auto
  with Some show ?thesis
    by (simp add: createPoint_def DomPath_indicesFromRoot_def Model_findTextForPath_def
        Paragraph_findTextForPath_indices)
qed

lemma createPoint_error: "createPoint s dp = Inl e \<Longrightarrow> e = NotInDocument"
  using createPoint_cases [of s "fst dp" "snd dp"] by auto

lemma createPoint_Inr: "createPoint s dp = Inr pt \<Longrightarrow> pt = Point (fst dp) (snd dp)"
  using createPoint_cases [of s "fst dp" "snd dp"] by auto

lemma Selection_ofDomSelection_error:
  "Selection_ofDomSelection s = Inl e \<Longrightarrow>
     e \<in> {NotInDocument, TypeError, OutOfFuel, NoContentInParagraph}"
  by (auto simp: Selection_ofDomSelection_def new_Selection_def andThen_eq_Inl
      simp del: textBetween_loop.simps
      dest: createPoint_error Text_getPrecedingText_error textBetween_loop_error split: if_splits)

lemma Model_getSelection_error:
  "Model_getSelection s = Inl e \<Longrightarrow>
     fst e \<in> {NotInDocument, TypeError, OutOfFuel, NoContentInParagraph}"
  by (auto simp: Model_getSelection_def Let_def andThen_eq_Inl
      dest!: Selection_ofDomSelection_error split: if_splits prod.splits)

lemma Model_updateSelection_error:
  "Model_updateSelection s = Inl e \<Longrightarrow>
     fst e \<in> {NotInDocument, TypeError, OutOfFuel, NoContentInParagraph}"
  by (auto simp: Model_updateSelection_def andThen_eq_Inl dest!: Model_getSelection_error)

lemma mergeConsecutiveTexts_loop_error:
  "mergeConsecutiveTexts_loop fuel this cursor i cam s = Inl e \<Longrightarrow>
     fst e \<in> {OutOfFuel, NoContentInParagraph, NotFoundError, IllegalArgument}"
proof (induction fuel arbitrary: i cam s)
  case 0
  then show ?case by auto
next
  case (Suc fuel)
  then show ?case
    by (auto simp: andThen_eq_Inl Let_def dest!: Text_remove_error split: if_splits Content.splits)
qed

lemma collapsed_getSelection:
  assumes "content s \<noteq> []" and "domSelection s = ((t, off), (t, off))"
    and "createPoint s (t, off) = Inr (Point t off)"
  shows "Model_getSelection s = Inr (Selection (Point t off) (Point t off) [], s)"
  using assms
  by (simp add: Model_getSelection_def Selection_ofDomSelection_def new_Selection_def)

subsection \<open>link and unlink without a selection\<close>

lemma not_IllegalState:
  "Paragraph_addContentBefore p c r s \<noteq> Inl (IllegalState, s')"
  "Paragraph_removeContent p c s \<noteq> Inl (IllegalState, s')"
  "Text_remove t s \<noteq> Inl (IllegalState, s')"
  "Model_updateSelection s \<noteq> Inl (IllegalState, s')"
  "mergeConsecutiveTexts_loop fuel this cursor i cam s \<noteq> Inl (IllegalState, s')"
  using Paragraph_addContentBefore_error [of p c r s "(IllegalState, s')"]
    Paragraph_removeContent_error [of p c s "(IllegalState, s')"]
    Text_remove_error [of t s "(IllegalState, s')"]
    Model_updateSelection_error [of s "(IllegalState, s')"]
    mergeConsecutiveTexts_loop_error [of fuel this cursor i cam s "(IllegalState, s')"]
  by auto

lemma Model_link_Some_error:
  assumes "linkableSelection s = Some sel"
  shows "Model_link target s \<noteq> Inl (IllegalState, s')"
  using assms
  by (simp add: Model_link_def Let_def andThen_eq_Inl not_IllegalState split: prod.splits)

lemma Model_unlink_Some_error:
  assumes "linkedSelection s = Some sel"
  shows "Model_unlink s \<noteq> Inl (IllegalState, s')"
  using assms
  by (simp add: Model_unlink_def Let_def andThen_eq_Inl Link_remove_def not_IllegalState
      Paragraph_mergeConsecutiveTexts_def split: prod.splits)

text \<open>C9. \<^verbatim>\<open>link(target)\<close> throws \<^verbatim>\<open>Illegal state\<close> exactly when \<^verbatim>\<open>linkableSelection\<close>
  is \<^verbatim>\<open>null\<close>, and \<^verbatim>\<open>unlink()\<close> exactly when \<^verbatim>\<open>linkedSelection\<close> is \<^verbatim>\<open>null\<close>. The throw
  is the first statement of either method, before any object is changed: the store at
  that throw is the store the method was called in. \<^verbatim>\<open>findTextForPath\<close> throws the same
  message, but never on an address that the host gave for a text node of the document, so
  no later statement of either method throws it.\<close>

theorem link_unlink_illegal_state:
  "(thrown (Model_link target s) = Some IllegalState \<longleftrightarrow> linkableSelection s = None) \<and>
   (thrown (Model_unlink s) = Some IllegalState \<longleftrightarrow> linkedSelection s = None) \<and>
   (thrown (Model_link target s) = Some IllegalState \<longrightarrow> storeAfter (Model_link target s) = s) \<and>
   (thrown (Model_unlink s) = Some IllegalState \<longrightarrow> storeAfter (Model_unlink s) = s)"
proof -
  have l: "Model_link target s = Inl (IllegalState, s)" if "linkableSelection s = None"
    using that by (simp add: Model_link_def)
  have u: "Model_unlink s = Inl (IllegalState, s)" if "linkedSelection s = None"
    using that by (simp add: Model_unlink_def)
  have l': "thrown (Model_link target s) \<noteq> Some IllegalState" if "linkableSelection s = Some sel" for sel
    using Model_link_Some_error [OF that] by (simp add: thrown_eq_Some)
  have u': "thrown (Model_unlink s) \<noteq> Some IllegalState" if "linkedSelection s = Some sel" for sel
    using Model_unlink_Some_error [OF that] by (simp add: thrown_eq_Some)
  show ?thesis
    using l u l' u'
    by (cases "linkableSelection s"; cases "linkedSelection s") auto
qed

lemma link_selections:
  "linkableSelection (parsed hello_world) = None"
  "linkedSelection (parsed hello_world) = None"
  "linkableSelection wordSelected = Some (LinkableSelection 0 0 5 2)"
  "linkedSelection wordSelected = None"
  "linkableSelection wordLinked = None"
  "linkedSelection wordLinked = Some (LinkedSelection 0 2)"
  by (simp_all add: wordSelected_def wordLinked_def model_defs)

theorem link_unlink_illegal_state_witness:
  "linkableSelection (parsed hello_world) = None \<and>
   linkedSelection (parsed hello_world) = None \<and>
   thrown (Model_link ''http://x'' (parsed hello_world)) = Some IllegalState \<and>
   storeAfter (Model_link ''http://x'' (parsed hello_world)) = parsed hello_world \<and>
   thrown (Model_unlink (parsed hello_world)) = Some IllegalState \<and>
   storeAfter (Model_unlink (parsed hello_world)) = parsed hello_world \<and>
   linkableSelection wordSelected = Some (LinkableSelection 0 0 5 2) \<and>
   thrown (Model_link ''http://x'' wordSelected) \<noteq> Some IllegalState \<and>
   thrown (Model_unlink wordSelected) = Some IllegalState \<and>
   storeAfter (Model_unlink wordSelected) = wordSelected \<and>
   linkedSelection wordLinked = Some (LinkedSelection 0 2) \<and>
   thrown (Model_unlink wordLinked) \<noteq> Some IllegalState \<and>
   thrown (Model_link ''http://x'' wordLinked) = Some IllegalState \<and>
   storeAfter (Model_link ''http://x'' wordLinked) = wordLinked"
  using link_unlink_illegal_state [of "''http://x''" "parsed hello_world"]
    link_unlink_illegal_state [of "''http://x''" wordSelected]
    link_unlink_illegal_state [of "''http://x''" wordLinked]
  by (simp add: link_selections)

subsection \<open>Deleting the only character of the document\<close>

lemma Text_remove_single:
  assumes "singleCharDocument s p t"
  shows "Text_remove t s = Inr (None, s\<lparr>content := []\<rparr>)"
  using assms
  by (simp add: singleCharDocument_def Text_remove_def Text_getPrecedingText_def
      Paragraph_getPrecedingText_def Model_getPrecedingText_def previousOf_def
      Paragraph_removeContent_def Model_removeContent_def remove_def)

lemma getSelection_single:
  assumes "content s = [p]" "Paragraph_content (paragraphs s p) = [TextRef t]"
    and "domSelection s = ((t, off), (t, off))"
  shows "Model_getSelection s = Inr (Selection (Point t off) (Point t off) [], s)"
  using assms
  by (simp add: Model_getSelection_def Selection_ofDomSelection_def createPoint_def
      DomPath_indicesFromRoot_def indicesInParagraph_def Content_text_def Model_findTextForPath_def
      Paragraph_findTextForPath_def Text_findTextForPath_def new_Selection_def)

lemma getSelection_empty:
  assumes "content s = []"
  shows "\<exists>sel s2. Model_getSelection s = Inr (sel, s2) \<and> placeholderDocument s2 \<and>
           \<not> Selection_isRange sel \<and> Point_offset (sel_start sel) = 0"
  using assms
  by (simp add: Model_getSelection_def Let_def new_Paragraph_def new_Text_def Text_set_content_def
      Paragraph_addContent_def set_Paragraph_content_def Model_addParagraph_def Model_moveCursor_def
      moveCursor_def Selection_ofDomSelection_def createPoint_def
      DomPath_indicesFromRoot_def indicesInParagraph_def Content_text_def Model_findTextForPath_def
      Paragraph_findTextForPath_def Text_findTextForPath_def new_Selection_def
      placeholderDocument_def Selection_isRange_def)

text \<open>C7, as the code has it. In a document of one paragraph with one plain run of one
  character, \<^verbatim>\<open>removeNextChar\<close> at offset 0 and \<^verbatim>\<open>removePreviousChar\<close> at offset 1 remove
  the paragraph and leave the document with no paragraph (its markdown is the empty
  string) and the cursor where it was. The next \<^verbatim>\<open>getSelection\<close>, with which every
  operation and \<^verbatim>\<open>updateSelection\<close> start, then seeds one paragraph with one run holding
  a single space and puts the collapsed cursor at offset 0 of that run.\<close>

theorem delete_single_character:
  assumes "singleCharDocument s p t"
  shows "(\<exists>s1. Model_removeNextChar (s\<lparr>domSelection := ((t, 0), (t, 0))\<rparr>) = Inr s1 \<and>
            content s1 = [] \<and> Model_toMarkdown s1 = [] \<and> domSelection s1 = ((t, 0), (t, 0)) \<and>
            (\<exists>sel s2. Model_getSelection s1 = Inr (sel, s2) \<and> placeholderDocument s2 \<and>
               \<not> Selection_isRange sel \<and> Point_offset (sel_start sel) = 0)) \<and>
         (\<exists>s1. Model_removePreviousChar (s\<lparr>domSelection := ((t, 1), (t, 1))\<rparr>) = Inr s1 \<and>
            content s1 = [] \<and> Model_toMarkdown s1 = [] \<and> domSelection s1 = ((t, 1), (t, 1)) \<and>
            (\<exists>sel s2. Model_getSelection s1 = Inr (sel, s2) \<and> placeholderDocument s2 \<and>
               \<not> Selection_isRange sel \<and> Point_offset (sel_start sel) = 0))"
proof -
  have single: "singleCharDocument (s\<lparr>domSelection := d\<rparr>) p t" for d
    using assms by (simp add: singleCharDocument_def)
  have sel: "Model_getSelection (s\<lparr>domSelection := ((t, off), (t, off))\<rparr>) =
      Inr (Selection (Point t off) (Point t off) [], s\<lparr>domSelection := ((t, off), (t, off))\<rparr>)" for off
    using assms by (intro getSelection_single [of _ p]) (simp_all add: singleCharDocument_def)
  have len: "Text_length (s\<lparr>domSelection := d\<rparr>) t = 1" for d
    using assms by (simp add: singleCharDocument_def Text_length_def)
  have nxt: "Model_removeNextChar (s\<lparr>domSelection := ((t, 0), (t, 0))\<rparr>) =
      Inr (s\<lparr>domSelection := ((t, 0), (t, 0)), content := []\<rparr>)"
    by (simp add: Model_removeNextChar_def sel Selection_isRange_def Text_removeNextChar_def len
        Text_removeRange_def Text_remove_single [OF single] Model_moveCursor_def roundToDouble_def)
  have prv: "Model_removePreviousChar (s\<lparr>domSelection := ((t, 1), (t, 1))\<rparr>) =
      Inr (s\<lparr>domSelection := ((t, 1), (t, 1)), content := []\<rparr>)"
    by (simp add: Model_removePreviousChar_def sel Selection_isRange_def Text_removePreviousChar_def len
        Text_removeRange_def Text_remove_single [OF single] Model_moveCursor_def roundToDouble_def)
  show ?thesis
    unfolding nxt prv
    by (simp add: Model_toMarkdown_def trim_def getSelection_empty)
qed

theorem delete_single_character_witness:
  "singleCharDocument (parsed single) 0 0 \<and>
   (\<exists>s1. Model_removeNextChar ((parsed single)\<lparr>domSelection := ((0, 0), (0, 0))\<rparr>) = Inr s1 \<and>
      content s1 = [] \<and>
      (\<exists>sel s2. Model_getSelection s1 = Inr (sel, s2) \<and> placeholderDocument s2)) \<and>
   textsOf (run [HostSelects ((0, 0), (0, 0)), RemoveNextChar, UpdateSelection] (parsed single))
     = Inr [['' '']] \<and>
   selectionOf (run [HostSelects ((0, 0), (0, 0)), RemoveNextChar, UpdateSelection] (parsed single))
     = Inr ((1, 0), (1, 0))"
proof -
  have h: "singleCharDocument (parsed single) 0 0"
    by code_simp
  have e: "textsOf (run [HostSelects ((0, 0), (0, 0)), RemoveNextChar, UpdateSelection] (parsed single))
     = Inr [['' '']]"
    "selectionOf (run [HostSelects ((0, 0), (0, 0)), RemoveNextChar, UpdateSelection] (parsed single))
     = Inr ((1, 0), (1, 0))"
    by code_simp+
  from delete_single_character [OF h] h e show ?thesis
    by blast
qed

text \<open>C7 as the claim states it fails: right after either deletion the document of the
  single run \<^verbatim>\<open>a\<close> has no paragraph at all, and the selection of the host is still the
  one set before the deletion.\<close>

theorem delete_single_character_counterexample:
  "textsOf (run [HostSelects ((0, 0), (0, 0)), RemoveNextChar] (parsed single)) = Inr [] \<and>
   selectionOf (run [HostSelects ((0, 0), (0, 0)), RemoveNextChar] (parsed single))
     = Inr ((0, 0), (0, 0)) \<and>
   textsOf (run [HostSelects ((0, 1), (0, 1)), RemovePreviousChar] (parsed single)) = Inr [] \<and>
   selectionOf (run [HostSelects ((0, 1), (0, 1)), RemovePreviousChar] (parsed single))
     = Inr ((0, 1), (0, 1))"
  by code_simp

subsection \<open>The store after a constructor\<close>

lemma new_Text_eq:
  "new_Text parent v s =
     (nextText s,
      s\<lparr>texts := (texts s)(nextText s :=
             \<lparr>Text_parent = parent, Text_content = (if v = [] then '' '' else v)\<rparr>),
        nextText := Suc (nextText s)\<rparr>)"
  by (simp add: new_Text_def Let_def Text_set_content_def)

lemma new_Link_eq:
  "new_Link parent v target s =
     (nextLink s,
      s\<lparr>texts := (texts s)(nextText s :=
             \<lparr>Text_parent = OfLink (nextLink s), Text_content = (if v = [] then '' '' else v)\<rparr>),
        links := (links s)(nextLink s :=
             \<lparr>Link_parent = parent, Link_text = nextText s, Link_target = target\<rparr>),
        nextText := Suc (nextText s), nextLink := Suc (nextLink s)\<rparr>)"
  by (simp add: new_Link_def new_Text_eq Let_def)

lemmas store_defs = Text_append_def Content_set_content_def Text_set_content_def
  Content_copyToParent_def Paragraph_addContent_def set_Paragraph_content_def new_Text_eq
  new_Link_eq new_Paragraph_def Let_def split_beta

subsection \<open>The Point that combineWith returns\<close>





subsection \<open>The store invariant\<close>

lemma invI:
  assumes "\<And>p. p \<in> set (content s) \<Longrightarrow> p < nextParagraph s"
    and "\<And>p. p < nextParagraph s \<Longrightarrow> p \<notin> Q \<Longrightarrow> Paragraph_content (paragraphs s p) \<noteq> []"
    and "\<And>p c. p < nextParagraph s \<Longrightarrow> c \<in> set (Paragraph_content (paragraphs s p))
           \<Longrightarrow> allocatedContent s c"
    and "\<And>l. l < nextLink s \<Longrightarrow> Link_text (links s l) < nextText s"
    and "\<And>l. l < nextLink s \<Longrightarrow> Text_parent (texts s (Link_text (links s l))) = OfLink l"
    and "\<And>t. t < nextText s \<Longrightarrow> Text_content (texts s t) \<noteq> []"
    and "\<And>t l. t < nextText s \<Longrightarrow> Text_parent (texts s t) = OfLink l
           \<Longrightarrow> l < nextLink s \<and> Link_text (links s l) = t"
  shows "storeInvariant Q s"
  unfolding storeInvariant_def using assms by blast

lemma invD1: "storeInvariant Q s \<Longrightarrow> p \<in> set (content s) \<Longrightarrow> p < nextParagraph s"
  unfolding storeInvariant_def by blast

lemma invD2: "storeInvariant Q s \<Longrightarrow> p < nextParagraph s \<Longrightarrow> p \<notin> Q
    \<Longrightarrow> Paragraph_content (paragraphs s p) \<noteq> []"
  unfolding storeInvariant_def by blast

lemma invD3: "storeInvariant Q s \<Longrightarrow> p < nextParagraph s
    \<Longrightarrow> c \<in> set (Paragraph_content (paragraphs s p)) \<Longrightarrow> allocatedContent s c"
  unfolding storeInvariant_def by blast

lemma invD4: "storeInvariant Q s \<Longrightarrow> l < nextLink s \<Longrightarrow> Link_text (links s l) < nextText s"
  unfolding storeInvariant_def by blast

lemma invD5: "storeInvariant Q s \<Longrightarrow> l < nextLink s
    \<Longrightarrow> Text_parent (texts s (Link_text (links s l))) = OfLink l"
  unfolding storeInvariant_def by blast

lemma invD6: "storeInvariant Q s \<Longrightarrow> t < nextText s \<Longrightarrow> Text_content (texts s t) \<noteq> []"
  unfolding storeInvariant_def by blast

lemma invD7: "storeInvariant Q s \<Longrightarrow> t < nextText s \<Longrightarrow> Text_parent (texts s t) = OfLink l
    \<Longrightarrow> l < nextLink s \<and> Link_text (links s l) = t"
  unfolding storeInvariant_def by blast

lemma storeInvariant_mono: "storeInvariant Q s \<Longrightarrow> Q \<subseteq> Q' \<Longrightarrow> storeInvariant Q' s"
  unfolding storeInvariant_def by blast

lemma storeInvariant_nonempty:
  "storeInvariant Q s \<Longrightarrow> Paragraph_content (paragraphs s p) \<noteq> [] \<Longrightarrow> storeInvariant (Q - {p}) s"
  unfolding storeInvariant_def by blast


lemma Text_set_content_fields [simp]:
  "Text_parent (texts (Text_set_content t v s) t') = Text_parent (texts s t')"
  "Text_content (texts (Text_set_content t v s) t') =
     (if t' = t then (if v = [] then '' '' else v) else Text_content (texts s t'))"
  "links (Text_set_content t v s) = links s"
  "paragraphs (Text_set_content t v s) = paragraphs s"
  "content (Text_set_content t v s) = content s"
  "nextText (Text_set_content t v s) = nextText s"
  "nextLink (Text_set_content t v s) = nextLink s"
  "nextParagraph (Text_set_content t v s) = nextParagraph s"
  "domSelection (Text_set_content t v s) = domSelection s"
  "linkableSelection (Text_set_content t v s) = linkableSelection s"
  "linkedSelection (Text_set_content t v s) = linkedSelection s"
  by (simp_all add: Text_set_content_def)

lemma set_Paragraph_content_fields [simp]:
  "Paragraph_content (paragraphs (set_Paragraph_content p cs s) p') =
     (if p' = p then cs else Paragraph_content (paragraphs s p'))"
  "links (set_Paragraph_content p cs s) = links s"
  "texts (set_Paragraph_content p cs s) = texts s"
  "content (set_Paragraph_content p cs s) = content s"
  "nextText (set_Paragraph_content p cs s) = nextText s"
  "nextLink (set_Paragraph_content p cs s) = nextLink s"
  "nextParagraph (set_Paragraph_content p cs s) = nextParagraph s"
  "domSelection (set_Paragraph_content p cs s) = domSelection s"
  "linkableSelection (set_Paragraph_content p cs s) = linkableSelection s"
  "linkedSelection (set_Paragraph_content p cs s) = linkedSelection s"
  by (simp_all add: set_Paragraph_content_def)

lemma new_Text_fields [simp]:
  "fst (new_Text parent v s) = nextText s"
  "Text_parent (texts (snd (new_Text parent v s)) t') =
     (if t' = nextText s then parent else Text_parent (texts s t'))"
  "Text_content (texts (snd (new_Text parent v s)) t') =
     (if t' = nextText s then (if v = [] then '' '' else v) else Text_content (texts s t'))"
  "links (snd (new_Text parent v s)) = links s"
  "paragraphs (snd (new_Text parent v s)) = paragraphs s"
  "content (snd (new_Text parent v s)) = content s"
  "nextText (snd (new_Text parent v s)) = Suc (nextText s)"
  "nextLink (snd (new_Text parent v s)) = nextLink s"
  "nextParagraph (snd (new_Text parent v s)) = nextParagraph s"
  "domSelection (snd (new_Text parent v s)) = domSelection s"
  "linkableSelection (snd (new_Text parent v s)) = linkableSelection s"
  "linkedSelection (snd (new_Text parent v s)) = linkedSelection s"
  by (simp_all add: new_Text_eq)

lemma new_Link_fields [simp]:
  "fst (new_Link parent v target s) = nextLink s"
  "Text_parent (texts (snd (new_Link parent v target s)) t') =
     (if t' = nextText s then OfLink (nextLink s) else Text_parent (texts s t'))"
  "Text_content (texts (snd (new_Link parent v target s)) t') =
     (if t' = nextText s then (if v = [] then '' '' else v) else Text_content (texts s t'))"
  "links (snd (new_Link parent v target s)) l' =
     (if l' = nextLink s then \<lparr>Link_parent = parent, Link_text = nextText s, Link_target = target\<rparr>
      else links s l')"
  "paragraphs (snd (new_Link parent v target s)) = paragraphs s"
  "content (snd (new_Link parent v target s)) = content s"
  "nextText (snd (new_Link parent v target s)) = Suc (nextText s)"
  "nextLink (snd (new_Link parent v target s)) = Suc (nextLink s)"
  "nextParagraph (snd (new_Link parent v target s)) = nextParagraph s"
  "domSelection (snd (new_Link parent v target s)) = domSelection s"
  "linkableSelection (snd (new_Link parent v target s)) = linkableSelection s"
  "linkedSelection (snd (new_Link parent v target s)) = linkedSelection s"
  by (simp_all add: new_Link_eq)

lemma new_Paragraph_fields [simp]:
  "fst (new_Paragraph s) = nextParagraph s"
  "Paragraph_content (paragraphs (snd (new_Paragraph s)) p') =
     (if p' = nextParagraph s then [] else Paragraph_content (paragraphs s p'))"
  "links (snd (new_Paragraph s)) = links s"
  "texts (snd (new_Paragraph s)) = texts s"
  "content (snd (new_Paragraph s)) = content s"
  "nextText (snd (new_Paragraph s)) = nextText s"
  "nextLink (snd (new_Paragraph s)) = nextLink s"
  "nextParagraph (snd (new_Paragraph s)) = Suc (nextParagraph s)"
  "domSelection (snd (new_Paragraph s)) = domSelection s"
  "linkableSelection (snd (new_Paragraph s)) = linkableSelection s"
  "linkedSelection (snd (new_Paragraph s)) = linkedSelection s"
  by (simp_all add: new_Paragraph_def Let_def)

lemma allocatedContent_simps [simp]:
  "allocatedContent (Text_set_content t v s) c = allocatedContent s c"
  "allocatedContent (set_Paragraph_content p cs s) c = allocatedContent s c"
  "allocatedContent (snd (new_Paragraph s)) c = allocatedContent s c"
  "allocatedContent (s\<lparr>content := ps\<rparr>) c = allocatedContent s c"
  "allocatedContent (s\<lparr>domSelection := d\<rparr>) c = allocatedContent s c"
  "allocatedContent (s\<lparr>linkableSelection := a\<rparr>) c = allocatedContent s c"
  "allocatedContent (s\<lparr>linkedSelection := b\<rparr>) c = allocatedContent s c"
  by (cases c; simp add: allocatedContent_def)+

lemma allocatedContent_new [simp]:
  "allocatedContent s c \<Longrightarrow> allocatedContent (snd (new_Text parent v s)) c"
  "allocatedContent s c \<Longrightarrow> allocatedContent (snd (new_Link p v target s)) c"
  "allocatedContent (snd (new_Text parent v s)) (TextRef (nextText s))"
  "allocatedContent (snd (new_Link p v target s)) (LinkRef (nextLink s))"
  by (cases c; simp add: allocatedContent_def)+

lemma inv_Text_set_content:
  assumes "storeInvariant Q s"
  shows "storeInvariant Q (Text_set_content t v s)"
proof (rule invI)
qed (use assms in \<open>auto simp: invD1 invD2 invD3 invD4 invD5 invD6 dest: invD7\<close>)

lemma inv_new_Text:
  assumes "storeInvariant Q s"
  shows "storeInvariant Q (snd (new_Text (OfParagraph p) v s))"
proof (rule invI)
qed (use assms in \<open>auto simp: invD1 invD2 invD3 invD5 invD6 less_Suc_eq dest: invD7 invD4\<close>)

lemma inv_new_Link:
  assumes "storeInvariant Q s"
  shows "storeInvariant Q (snd (new_Link p v target s))"
proof (rule invI)
qed (use assms in \<open>auto simp: invD1 invD2 invD3 invD5 invD6 less_Suc_eq dest: invD7 invD4\<close>)

lemma inv_new_Paragraph:
  assumes "storeInvariant Q s"
  shows "storeInvariant (insert (nextParagraph s) Q) (snd (new_Paragraph s))"
proof (rule invI)
qed (use assms in \<open>auto simp: invD2 invD3 invD4 invD5 invD6 less_Suc_eq dest: invD7 invD1\<close>)

lemma inv_set_Paragraph_content:
  assumes "storeInvariant Q s"
    and "p < nextParagraph s \<Longrightarrow> cs \<noteq> [] \<and> (\<forall>c \<in> set cs. allocatedContent s c)"
  shows "storeInvariant (Q - {p}) (set_Paragraph_content p cs s)"
proof (rule invI)
qed (use assms in \<open>auto simp: invD1 invD2 invD3 invD4 invD5 invD6 dest: invD7 split: if_splits\<close>)

lemma inv_content_update:
  assumes "storeInvariant Q s" and "\<forall>p \<in> set ps. p < nextParagraph s"
  shows "storeInvariant Q (s\<lparr>content := ps\<rparr>)"
proof (rule invI)
qed (use assms in \<open>auto simp: invD1 invD2 invD3 invD4 invD5 invD6 dest: invD7\<close>)

lemma inv_selection_update [simp]:
  "storeInvariant Q (s\<lparr>domSelection := d\<rparr>) = storeInvariant Q s"
  "storeInvariant Q (s\<lparr>linkableSelection := a\<rparr>) = storeInvariant Q s"
  "storeInvariant Q (s\<lparr>linkedSelection := b\<rparr>) = storeInvariant Q s"
  unfolding storeInvariant_def by simp_all


lemma inv_Text_append: "storeInvariant Q s \<Longrightarrow> storeInvariant Q (Text_append t v s)"
  by (simp add: Text_append_def inv_Text_set_content)

lemma inv_Content_set_content:
  "storeInvariant Q s \<Longrightarrow> storeInvariant Q (Content_set_content c v s)"
  by (simp add: Content_set_content_def inv_Text_set_content)

lemma inv_Text_insertChar:
  "storeInvariant Q s \<Longrightarrow> storeInvariant Q (snd (Text_insertChar t ch offset s))"
  by (simp add: Text_insertChar_def Let_def inv_Text_set_content)

lemma inv_Paragraph_addContent:
  assumes "storeInvariant Q s" and "allocatedContent s c"
  shows "storeInvariant (Q - {p}) (Paragraph_addContent p c s)"
  unfolding Paragraph_addContent_def
  using assms by (intro inv_set_Paragraph_content) (auto dest: invD3)

lemma inv_Content_copyToParent:
  assumes "storeInvariant Q s"
  shows "storeInvariant Q (snd (Content_copyToParent c p s))"
    and "allocatedContent (snd (Content_copyToParent c p s)) (fst (Content_copyToParent c p s))"
  using assms
  by (cases c; simp add: Content_copyToParent_def split_beta inv_new_Text inv_new_Link)+

lemma inv_copy_add:
  assumes "storeInvariant Q s"
  shows "storeInvariant (Q - {p}) (Paragraph_addContent p (fst (Content_copyToParent c p' s))
           (snd (Content_copyToParent c p' s)))"
  using assms by (intro inv_Paragraph_addContent inv_Content_copyToParent)

lemma inv_Paragraph_appendText:
  assumes "storeInvariant Q s"
  shows "storeInvariant (Q - {p}) (Paragraph_appendText p v s)"
proof (cases "length (Paragraph_content (paragraphs s p)) > 0 \<and> isText (last (Paragraph_content (paragraphs s p)))")
  case True
  then have "Paragraph_content (paragraphs s p) \<noteq> []" by auto
  with assms have "storeInvariant (Q - {p}) s"
    by (rule storeInvariant_nonempty)
  with True show ?thesis
    by (simp add: Paragraph_appendText_def inv_Text_append)
next
  case False
  have "storeInvariant (Q - {p}) (Paragraph_addContent p (TextRef (nextText s))
      (snd (new_Text (OfParagraph p) v s)))"
    using assms by (intro inv_Paragraph_addContent inv_new_Text) simp_all
  with False show ?thesis
    by (auto simp add: Paragraph_appendText_def split_beta Let_def)
qed

lemma Paragraph_addContentBefore_Inr:
  "Paragraph_addContentBefore p c r s = Inr s' \<longleftrightarrow>
     r \<in> set (Paragraph_content (paragraphs s p)) \<and>
     s' = set_Paragraph_content p (insertBefore (Paragraph_content (paragraphs s p)) c r) s"
  by (auto simp: Paragraph_addContentBefore_def Let_def)

lemma set_insertBefore: "r \<in> set xs \<Longrightarrow> set (insertBefore xs x r) = insert x (set xs)"
  by (induction xs) auto

lemma insertBefore_nonempty: "r \<in> set xs \<Longrightarrow> insertBefore xs x r \<noteq> []"
  by (cases xs) auto

lemma inv_Paragraph_addContentBefore:
  assumes "storeInvariant Q s" and "allocatedContent s c"
    and "Paragraph_addContentBefore p c r s = Inr s'"
  shows "storeInvariant Q s'"
proof -
  from assms(3) have r: "r \<in> set (Paragraph_content (paragraphs s p))"
    and s': "s' = set_Paragraph_content p (insertBefore (Paragraph_content (paragraphs s p)) c r) s"
    by (simp_all add: Paragraph_addContentBefore_Inr)
  have "storeInvariant (Q - {p}) s'"
    unfolding s' using assms(1,2) r
    by (intro inv_set_Paragraph_content) (auto simp: set_insertBefore insertBefore_nonempty dest: invD3)
  then show ?thesis
    by (rule storeInvariant_mono) auto
qed

lemma Model_removeContent_Inr:
  "Model_removeContent p s = Inr s' \<longleftrightarrow>
     p \<in> set (content s) \<and> s' = s\<lparr>content := remove (content s) p\<rparr>"
  by (auto simp: Model_removeContent_def)

lemma in_set_remove: "x \<in> set (remove xs y) \<Longrightarrow> x \<in> set xs"
  unfolding remove_def using notin_set_remove1 by fastforce

lemma inv_Model_removeContent:
  assumes "storeInvariant Q s" and "Model_removeContent p s = Inr s'"
  shows "storeInvariant Q s'"
  using assms
  by (auto simp: Model_removeContent_Inr intro!: inv_content_update dest: invD1 in_set_remove)

lemma inv_Paragraph_removeContent:
  assumes "storeInvariant Q s" and "Paragraph_removeContent p c s = Inr s'"
  shows "storeInvariant Q s'"
proof (cases "length (Paragraph_content (paragraphs s p)) = 1")
  case True
  with assms show ?thesis
    by (simp add: Paragraph_removeContent_def inv_Model_removeContent)
next
  case False
  with assms(2) have c: "c \<in> set (Paragraph_content (paragraphs s p))"
    and s': "s' = set_Paragraph_content p (remove (Paragraph_content (paragraphs s p)) c) s"
    by (auto simp: Paragraph_removeContent_def Let_def split: if_splits)
  from c False have "remove (Paragraph_content (paragraphs s p)) c \<noteq> []"
    by (cases "Paragraph_content (paragraphs s p)") (auto simp: remove_def split: if_splits)
  then have "storeInvariant (Q - {p}) s'"
    unfolding s' using assms(1)
    by (intro inv_set_Paragraph_content) (auto dest: invD3 in_set_remove)
  then show ?thesis
    by (rule storeInvariant_mono) auto
qed

lemma inv_Link_remove:
  "storeInvariant Q s \<Longrightarrow> Link_remove l s = Inr s' \<Longrightarrow> storeInvariant Q s'"
  by (auto simp: Link_remove_def intro: inv_Paragraph_removeContent)

lemma inv_Text_remove:
  assumes "storeInvariant Q s" and "Text_remove t s = Inr (pt, s')"
  shows "storeInvariant Q s'"
  using assms
  by (auto simp: Text_remove_def andThen_eq_Inr Link_removeContent_def
      intro: inv_Paragraph_removeContent inv_Link_remove split: Parent.splits if_splits)

lemma inv_Text_removeRange:
  assumes "storeInvariant Q s" and "Text_removeRange t a b s = Inr (pt, s')"
  shows "storeInvariant Q s'"
  using assms
  by (auto simp: Text_removeRange_def Let_def intro: inv_Text_remove inv_Text_set_content
      split: if_splits)


lemma inv_Text_remove_variants:
  assumes "storeInvariant Q s"
  shows "Text_removeAfter t a s = Inr (pt, s') \<Longrightarrow> storeInvariant Q s'"
    and "Text_removeBefore t a s = Inr (pt, s') \<Longrightarrow> storeInvariant Q s'"
    and "Text_removeLastCharacter t s = Inr (pt, s') \<Longrightarrow> storeInvariant Q s'"
    and "Text_removeFirstCharacter t s = Inr (pt, s') \<Longrightarrow> storeInvariant Q s'"
  using assms
  by (auto simp: Text_removeAfter_def Text_removeBefore_def Text_removeLastCharacter_def
      Text_removeFirstCharacter_def intro: inv_Text_removeRange inv_Text_remove split: if_splits)

lemma inv_combineWith_loop:
  "storeInvariant Q s \<Longrightarrow> storeInvariant Q (combineWith_loop this lastOfThis firstChild cs s)"
proof (induction cs arbitrary: firstChild s)
  case Nil
  then show ?case by simp
next
  case (Cons c cs)
  have "storeInvariant Q (Paragraph_addContent this (fst (Content_copyToParent c this s))
      (snd (Content_copyToParent c this s)))"
    using inv_copy_add [OF Cons.prems, of this c this] by (rule storeInvariant_mono) auto
  with Cons.prems show ?case
    by (auto simp: split_beta intro!: Cons.IH inv_Text_append inv_Content_set_content)
qed

lemma inv_Paragraph_combineWith:
  assumes "storeInvariant Q s" and "Paragraph_combineWith p q s = Inr (pt, s')"
  shows "storeInvariant Q s'"
  using assms
  by (auto simp: Paragraph_combineWith_def Let_def andThen_eq_Inr Paragraph_remove_def
      intro: inv_Model_removeContent inv_combineWith_loop split: if_splits)

lemma inv_Text_removeChar:
  assumes "storeInvariant Q s"
  shows "Text_removeNextChar t a s = Inr (pt, s') \<Longrightarrow> storeInvariant Q s'"
    and "Text_removePreviousChar t a s = Inr (pt, s') \<Longrightarrow> storeInvariant Q s'"
  using assms
  by (auto simp: Text_removeNextChar_def Text_removePreviousChar_def andThen_eq_Inr
      intro: inv_Text_removeRange inv_Paragraph_combineWith inv_Text_remove_variants
      split: if_splits option.splits)

lemma inv_splitTo_loop:
  "storeInvariant Q s \<Longrightarrow> storeInvariant Q (snd (splitTo_loop prep fromText offset cs acc s))"
proof (induction cs arbitrary: acc s)
  case Nil
  then show ?case by simp
next
  case (Cons c cs)
  have 1: "storeInvariant Q (Paragraph_addContent prep (fst (Content_copyToParent c prep s))
      (snd (Content_copyToParent c prep s)))"
    using inv_copy_add [OF Cons.prems, of prep c prep] by (rule storeInvariant_mono) auto
  have 2: "storeInvariant Q (Paragraph_appendText prep v s)" for v
    using inv_Paragraph_appendText [OF Cons.prems, of prep v] by (rule storeInvariant_mono) auto
  show ?case
    using 1 2 by (auto simp: split_beta Let_def intro!: Cons.IH inv_Content_set_content)
qed

lemma inv_Content_remove:
  "storeInvariant Q s \<Longrightarrow> Content_remove c s = Inr s' \<Longrightarrow> storeInvariant Q s'"
  by (cases c) (auto simp: Content_remove_def andThen_eq_Inr intro: inv_Text_remove inv_Link_remove)

lemma inv_removeAll_loop:
  "storeInvariant Q s \<Longrightarrow> removeAll_loop cs s = Inr s' \<Longrightarrow> storeInvariant Q s'"
  by (induction cs arbitrary: s) (auto simp: andThen_eq_Inr intro: inv_Content_remove)

lemma inv_Paragraph_splitTo:
  assumes "storeInvariant Q s" and "Paragraph_splitTo this prep fromText offset s = Inr (pt, s')"
  shows "storeInvariant (Q - {prep}) s'"
proof -
  let ?r = "splitTo_loop prep fromText offset (Paragraph_content (paragraphs s this)) [] s"
  from assms(2) obtain s2 where
    s2: "removeAll_loop (fst ?r) (snd ?r) = Inr s2"
    and s': "s' = (if Paragraph_empty s2 prep then
                      (let (t, s') = new_Text (OfParagraph prep) [] s2
                       in Paragraph_addContent prep (TextRef t) s')
                    else s2)"
    by (auto simp: Paragraph_splitTo_def split_beta Let_def andThen_eq_Inr)
  have inv2: "storeInvariant Q s2"
    using inv_removeAll_loop [OF inv_splitTo_loop [OF assms(1)] s2] .
  show ?thesis
  proof (cases "Paragraph_empty s2 prep")
    case True
    have "storeInvariant (Q - {prep}) (Paragraph_addContent prep (TextRef (nextText s2))
        (snd (new_Text (OfParagraph prep) [] s2)))"
      using inv2 by (intro inv_Paragraph_addContent inv_new_Text) simp_all
    with True show ?thesis by (simp add: s' split_beta)
  next
    case False
    then show ?thesis
      using storeInvariant_nonempty [OF inv2, of prep] by (simp add: s' Paragraph_empty_def)
  qed
qed

lemma inv_mergeConsecutiveTexts_loop:
  "storeInvariant Q s \<Longrightarrow> mergeConsecutiveTexts_loop fuel this cursor i cam s = Inr (pt, s')
     \<Longrightarrow> storeInvariant Q s'"
proof (induction fuel arbitrary: i cam s)
  case 0
  then show ?case by simp
next
  case (Suc fuel)
  let ?cs = "Paragraph_content (paragraphs s this)"
  show ?case
  proof (cases "i < length ?cs")
    case False
    with Suc.prems show ?thesis by (simp add: Let_def)
  next
    case True
    show ?thesis
    proof (cases "\<exists>pr cu. ?cs ! (i - 1) = TextRef pr \<and> ?cs ! i = TextRef cu")
      case False
      with True Suc.prems have "mergeConsecutiveTexts_loop fuel this cursor (i + 1) cam s = Inr (pt, s')"
        by (auto simp: Let_def split: Content.splits)
      with Suc.IH Suc.prems(1) show ?thesis by blast
    next
      case both: True
      then obtain pr cu where pc: "?cs ! (i - 1) = TextRef pr" "?cs ! i = TextRef cu"
        by blast
      let ?s1 = "Text_append pr (Text_content (texts s cu)) s"
      from True pc Suc.prems(2) obtain point s2 cam' where
        r: "Text_remove cu ?s1 = Inr (point, s2)"
        and l: "mergeConsecutiveTexts_loop fuel this cursor i cam' s2 = Inr (pt, s')"
        by (auto simp: Let_def andThen_eq_Inr)
      have "storeInvariant Q s2"
        using inv_Text_remove [OF inv_Text_append [OF Suc.prems(1)] r] .
      with Suc.IH l show ?thesis by blast
    qed
  qed
qed

lemma inv_moveCursor [simp]:
  "storeInvariant Q (moveCursor t off s) = storeInvariant Q s"
  "storeInvariant Q (Model_moveCursor pt s) = storeInvariant Q s"
  by (simp_all add: moveCursor_def Model_moveCursor_def split: option.splits)

lemma inv_Paragraph_mergeConsecutiveTexts:
  "storeInvariant Q s \<Longrightarrow> Paragraph_mergeConsecutiveTexts this cursor s = Inr s'
     \<Longrightarrow> storeInvariant Q s'"
  by (auto simp: Paragraph_mergeConsecutiveTexts_def andThen_eq_Inr
      dest: inv_mergeConsecutiveTexts_loop split: if_splits)

lemma inv_removeTexts_loop:
  "storeInvariant Q s \<Longrightarrow> removeTexts_loop ts s = Inr s' \<Longrightarrow> storeInvariant Q s'"
  by (induction ts arbitrary: s) (auto simp: andThen_eq_Inr intro: inv_Text_remove)

lemma inv_Selection_remove:
  assumes "storeInvariant Q s" and "Selection_remove sel s = Inr (pt, s')"
  shows "storeInvariant Q s'"
proof (cases "Point_text (sel_start sel) = Point_text (sel_end sel)")
  case True
  with assms show ?thesis
    by (auto simp: Selection_remove_def Let_def intro: inv_Text_removeRange)
next
  case False
  with assms(2) have "andThen (removeTexts_loop (sel_textBetween sel) s) (\<lambda>s1.
           andThen (Text_removeAfter (Point_text (sel_start sel)) (Point_offset (sel_start sel)) s1) (\<lambda>(p1, s2).
           andThen (Text_removeBefore (Point_text (sel_end sel)) (Point_offset (sel_end sel)) s2) (\<lambda>(p2, s3).
           andThen (Paragraph_combineWith (Text_containingParagraph s3 (Point_text (sel_start sel)))
                      (Text_containingParagraph s3 (Point_text (sel_end sel))) s3) (\<lambda>(p3, s4).
           Inr (Some (Point (Point_text (sel_start sel)) (Point_offset (sel_start sel))), s4))))) = Inr (pt, s')"
    by (simp add: Selection_remove_def Let_def)
  then obtain s1 p1 s2 p2 s3 p3 where
    "removeTexts_loop (sel_textBetween sel) s = Inr s1"
    "Text_removeAfter (Point_text (sel_start sel)) (Point_offset (sel_start sel)) s1 = Inr (p1, s2)"
    "Text_removeBefore (Point_text (sel_end sel)) (Point_offset (sel_end sel)) s2 = Inr (p2, s3)"
    "Paragraph_combineWith (Text_containingParagraph s3 (Point_text (sel_start sel)))
       (Text_containingParagraph s3 (Point_text (sel_end sel))) s3 = Inr (p3, s')"
    by (auto elim!: andThenE)
  then show ?thesis
    using assms(1) inv_removeTexts_loop inv_Text_remove_variants(1,2) inv_Paragraph_combineWith
    by meson
qed

lemma inv_Model_getSelection:
  assumes "storeInvariant Q s" and "Model_getSelection s = Inr (sel, s')"
  shows "storeInvariant Q s'"
proof (cases "length (content s) = 0")
  case False
  with assms show ?thesis
    by (auto simp: Model_getSelection_def andThen_eq_Inr)
next
  case True
  let ?p = "nextParagraph s"
  let ?s1 = "snd (new_Paragraph s)"
  let ?s2 = "snd (new_Text (OfParagraph ?p) [] ?s1)"
  let ?s3 = "Paragraph_addContent ?p (TextRef (nextText ?s1)) ?s2"
  have "storeInvariant (insert ?p Q) ?s2"
    using assms(1) by (intro inv_new_Text inv_new_Paragraph)
  then have "storeInvariant (insert ?p Q - {?p}) ?s3"
    by (intro inv_Paragraph_addContent) (simp_all add: allocatedContent_def)
  then have 3: "storeInvariant Q ?s3"
    by (rule storeInvariant_mono) auto
  have "storeInvariant Q (?s3\<lparr>content := content ?s3 @ [?p]\<rparr>)"
    using 3 by (intro inv_content_update) (auto simp: Paragraph_addContent_def dest: invD1)
  with True assms(2) show ?thesis
    by (auto simp: Model_getSelection_def split_beta Let_def Model_addParagraph_def elim!: andThenE)
qed


lemma inv_remove_if_range:
  assumes "storeInvariant Q s"
    and "(if Selection_isRange sel
          then andThen (Selection_remove sel s) (\<lambda>(point, s'). Inr s')
          else Inr s) = Inr s'"
  shows "storeInvariant Q s'"
  using assms by (auto elim!: andThenE intro: inv_Selection_remove split: if_splits)

lemma inv_Model_insertChar:
  assumes "storeInvariant Q s" and "Model_insertChar ch s = Inr s'"
  shows "storeInvariant Q s'"
proof -
  from assms(2) obtain sel s1 s2 where
    1: "Model_getSelection s = Inr (sel, s1)"
    and 2: "(if Selection_isRange sel
          then andThen (Selection_remove sel s1) (\<lambda>(point, s'). Inr s')
          else Inr s1) = Inr s2"
    and s': "s' = Model_moveCursor
        (Some (fst (Text_insertChar (Point_text (sel_start sel)) ch (Point_offset (sel_start sel)) s2)))
        (snd (Text_insertChar (Point_text (sel_start sel)) ch (Point_offset (sel_start sel)) s2))"
    unfolding Model_insertChar_def
    by (auto simp: split_beta Let_def elim!: andThenE)
  have "storeInvariant Q s2"
    using inv_remove_if_range [OF inv_Model_getSelection [OF assms(1) 1] 2] .
  then show ?thesis
    by (simp add: s' inv_Text_insertChar)
qed

lemma inv_Model_removeNextChar:
  assumes "storeInvariant Q s" and "Model_removeNextChar s = Inr s'"
  shows "storeInvariant Q s'"
proof -
  from assms(2) obtain sel s1 pt s2 where
    1: "Model_getSelection s = Inr (sel, s1)"
    and 2: "Selection_remove sel s1 = Inr (pt, s2) \<or>
            Text_removeNextChar (Point_text (sel_start sel)) (Point_offset (sel_start sel)) s1
              = Inr (pt, s2)"
    and s': "s' = Model_moveCursor pt s2"
    unfolding Model_removeNextChar_def
    by (auto elim!: andThenE split: if_splits; blast)
  have "storeInvariant Q s1"
    using inv_Model_getSelection [OF assms(1) 1] .
  with 2 have "storeInvariant Q s2"
    by (blast intro: inv_Selection_remove inv_Text_removeChar)
  then show ?thesis by (simp add: s')
qed

lemma inv_Model_removePreviousChar:
  assumes "storeInvariant Q s" and "Model_removePreviousChar s = Inr s'"
  shows "storeInvariant Q s'"
proof -
  from assms(2) obtain sel s1 pt s2 where
    1: "Model_getSelection s = Inr (sel, s1)"
    and 2: "Selection_remove sel s1 = Inr (pt, s2) \<or>
            Text_removePreviousChar (Point_text (sel_start sel)) (Point_offset (sel_start sel)) s1
              = Inr (pt, s2)"
    and s': "s' = Model_moveCursor pt s2"
    unfolding Model_removePreviousChar_def
    by (auto elim!: andThenE split: if_splits; blast)
  have "storeInvariant Q s1"
    using inv_Model_getSelection [OF assms(1) 1] .
  with 2 have "storeInvariant Q s2"
    by (blast intro: inv_Selection_remove inv_Text_removeChar)
  then show ?thesis by (simp add: s')
qed

lemma inv_Model_updateSelection:
  assumes "storeInvariant Q s" and "Model_updateSelection s = Inr s'"
  shows "storeInvariant Q s'"
proof -
  from assms(2) obtain sel s1 where
    1: "Model_getSelection s = Inr (sel, s1)"
    and s': "s' = s1\<lparr>linkableSelection := Selection_linkable s1 sel,
               linkedSelection := Selection_link s1 sel\<rparr>"
    unfolding Model_updateSelection_def
    by (auto elim!: andThenE)
  show ?thesis
    using inv_Model_getSelection [OF assms(1) 1] by (simp add: s')
qed

lemma inv_Model_insertNewParagraph:
  assumes "storeInvariant Q s" and "Model_insertNewParagraph s = Inr s'"
  shows "storeInvariant Q s'"
proof -
  from assms(2) obtain sel s1 s2 s4 pt s5 where
    1: "Model_getSelection s = Inr (sel, s1)"
    and 2: "(if Selection_isRange sel
          then andThen (Selection_remove sel s1) (\<lambda>(point, s'). Inr s')
          else Inr s1) = Inr s2"
    and 4: "Model_insertParagraphBefore (nextParagraph s2)
              (Text_containingParagraph (snd (new_Paragraph s2)) (Point_text (sel_start sel)))
              (snd (new_Paragraph s2)) = Inr s4"
    and 5: "Paragraph_splitTo (Text_containingParagraph s4 (Point_text (sel_start sel)))
              (nextParagraph s2) (Point_text (sel_start sel)) (Point_offset (sel_start sel)) s4
            = Inr (pt, s5)"
    and s': "s' = Model_moveCursor (Some pt) s5"
    unfolding Model_insertNewParagraph_def
    by (auto simp: split_beta Let_def elim!: andThenE)
  let ?p = "nextParagraph s2"
  have i2: "storeInvariant Q s2"
    using inv_remove_if_range [OF inv_Model_getSelection [OF assms(1) 1] 2] .
  then have i3: "storeInvariant (insert ?p Q) (snd (new_Paragraph s2))"
    by (rule inv_new_Paragraph)
  from 4 have s4: "s4 = (snd (new_Paragraph s2))\<lparr>content :=
        insertBefore (content s2) ?p
          (Text_containingParagraph (snd (new_Paragraph s2)) (Point_text (sel_start sel)))\<rparr>"
    and r: "Text_containingParagraph (snd (new_Paragraph s2)) (Point_text (sel_start sel))
        \<in> set (content s2)"
    by (auto simp: Model_insertParagraphBefore_def Let_def split: if_splits)
  have i4: "storeInvariant (insert ?p Q) s4"
    unfolding s4 using i3 r
    by (intro inv_content_update) (auto simp: set_insertBefore less_Suc_eq dest: invD1 [OF i2])
  have "storeInvariant (insert ?p Q - {?p}) s5"
    using inv_Paragraph_splitTo [OF i4 5] .
  then have "storeInvariant Q s5"
    by (rule storeInvariant_mono) auto
  then show ?thesis by (simp add: s')
qed

lemma inv_add_new_Text_before:
  assumes "storeInvariant Q s"
    and "Paragraph_addContentBefore p (TextRef (nextText s)) r
           (snd (new_Text (OfParagraph p') v s)) = Inr s'"
  shows "storeInvariant Q s'" and "nextLink s' = nextLink s"
proof -
  have "allocatedContent (snd (new_Text (OfParagraph p') v s)) (TextRef (nextText s))"
    by simp
  from inv_Paragraph_addContentBefore [OF inv_new_Text [OF assms(1)] this assms(2)]
  show "storeInvariant Q s'" .
  from assms(2) show "nextLink s' = nextLink s"
    by (simp add: Paragraph_addContentBefore_Inr)
qed

lemma inv_Model_link:
  assumes "storeInvariant Q s" and "Model_link target s = Inr s'"
  shows "storeInvariant Q s'"
proof -
  from assms(2) obtain sel where sel: "linkableSelection s = Some sel"
    by (cases "linkableSelection s") (auto simp: Model_link_def)
  let ?t = "ls_text sel"
  let ?p = "Text_containingParagraph s ?t"
  let ?l = "nextLink s"
  let ?s1 = "snd (new_Link ?p (substring (Text_content (texts s ?t)) (ls_start sel) (ls_end sel))
               (Some target) s)"
  from assms(2) sel obtain s2 s3 s4 pt s5 where
    2: "(if ls_start sel > 0 then
           (let (leading, s') = new_Text (OfParagraph ?p)
                                  (substring (Text_content (texts ?s1 ?t)) 0 (ls_start sel)) ?s1
            in Paragraph_addContentBefore ?p (TextRef leading) (TextRef ?t) s')
         else Inr ?s1) = Inr s2"
    and 3: "Paragraph_addContentBefore ?p (LinkRef ?l) (TextRef ?t) s2 = Inr s3"
    and 4: "(if ls_end sel < Text_length s3 ?t then
           (let (trailing, s') = new_Text (OfParagraph ?p)
                                   (substring (Text_content (texts s3 ?t)) (ls_end sel) (Text_length s3 ?t)) s3
            in Paragraph_addContentBefore ?p (TextRef trailing) (TextRef ?t) s')
         else Inr s3) = Inr s4"
    and 5: "Text_remove ?t s4 = Inr (pt, s5)"
    and 6: "Model_updateSelection
              (Model_moveCursor
                 (Some (Point (Link_text (links s5 ?l)) (roundToDouble (ls_cursor sel - ls_start sel)))) s5)
            = Inr s'"
    unfolding Model_link_def
    by (auto simp: split_beta Let_def elim!: andThenE)
  have i1: "storeInvariant Q ?s1"
    using assms(1) by (rule inv_new_Link)
  have i2: "storeInvariant Q s2 \<and> nextLink s2 = nextLink ?s1"
  proof (cases "ls_start sel > 0")
    case True
    with 2 inv_add_new_Text_before [OF i1] show ?thesis by (auto simp: split_beta Let_def)
  next
    case False
    with 2 i1 show ?thesis by auto
  qed
  then have a2: "allocatedContent s2 (LinkRef ?l)"
    by (simp add: allocatedContent_def)
  have i3: "storeInvariant Q s3"
    using inv_Paragraph_addContentBefore [OF _ a2 3] i2 by simp
  have i4: "storeInvariant Q s4"
  proof (cases "ls_end sel < Text_length s3 ?t")
    case True
    with 4 inv_add_new_Text_before [OF i3] show ?thesis by (auto simp: split_beta Let_def)
  next
    case False
    with 4 i3 show ?thesis by auto
  qed
  have "storeInvariant Q s5"
    using inv_Text_remove [OF i4 5] .
  then have "storeInvariant Q
      (Model_moveCursor
                 (Some (Point (Link_text (links s5 ?l)) (roundToDouble (ls_cursor sel - ls_start sel)))) s5)"
    by simp
  then show ?thesis
    using 6 by (rule inv_Model_updateSelection)
qed

lemma inv_Model_unlink:
  assumes "storeInvariant Q s" and "Model_unlink s = Inr s'"
  shows "storeInvariant Q s'"
proof -
  from assms(2) obtain sel where sel: "linkedSelection s = Some sel"
    by (cases "linkedSelection s") (auto simp: Model_unlink_def)
  let ?l = "ls_link sel"
  let ?p = "Link_parent (links s ?l)"
  let ?s1 = "snd (new_Text (OfParagraph ?p) (Content_content s (LinkRef ?l)) s)"
  from assms(2) sel obtain s2 s3 s4 where
    2: "Paragraph_addContentBefore ?p (TextRef (nextText s)) (LinkRef ?l) ?s1 = Inr s2"
    and 3: "Link_remove ?l s2 = Inr s3"
    and 4: "Paragraph_mergeConsecutiveTexts ?p (Point (nextText s) (ls_link_cursor sel)) s3 = Inr s4"
    and 5: "Model_updateSelection s4 = Inr s'"
    unfolding Model_unlink_def
    by (auto simp: split_beta Let_def elim!: andThenE)
  have "storeInvariant Q s2"
    using assms(1) by (intro inv_Paragraph_addContentBefore [OF inv_new_Text _ 2]) simp_all
  then have "storeInvariant Q s4"
    using 3 4 by (blast intro: inv_Link_remove inv_Paragraph_mergeConsecutiveTexts)
  then show ?thesis
    using 5 by (rule inv_Model_updateSelection)
qed

lemma inv_step:
  assumes "storeInvariant Q s" and "step c s = Inr s'"
  shows "storeInvariant Q s'"
proof (cases c)
  case SelectionRemove
  with assms(2) obtain sel s1 pt where
    "Model_getSelection s = Inr (sel, s1)" "Selection_remove sel s1 = Inr (pt, s')"
    by (auto simp: step_def elim!: andThenE)
  then show ?thesis
    using assms(1) by (blast intro: inv_Model_getSelection inv_Selection_remove)
next
  case RemoveLinkSelections
  with assms show ?thesis
    by (auto simp: step_def Model_removeLinkSelections_def)
next
  case (HostSelects d)
  with assms show ?thesis
    by (auto simp: step_def)
next
  case (InsertChar ch)
  with assms show ?thesis
    by (auto simp: step_def intro: inv_Model_insertChar)
next
  case InsertNewParagraph
  with assms show ?thesis
    by (auto simp: step_def intro: inv_Model_insertNewParagraph)
next
  case RemoveNextChar
  with assms show ?thesis
    by (auto simp: step_def intro: inv_Model_removeNextChar)
next
  case RemovePreviousChar
  with assms show ?thesis
    by (auto simp: step_def intro: inv_Model_removePreviousChar)
next
  case (LinkTo target)
  with assms show ?thesis
    by (auto simp: step_def intro: inv_Model_link)
next
  case Unlink
  with assms show ?thesis
    by (auto simp: step_def intro: inv_Model_unlink)
next
  case UpdateSelection
  with assms show ?thesis
    by (auto simp: step_def intro: inv_Model_updateSelection)
qed

lemma inv_run: "storeInvariant Q s \<Longrightarrow> run cs s = Inr s' \<Longrightarrow> storeInvariant Q s'"
  by (induction cs arbitrary: s) (auto elim!: andThenE dest: inv_step)

lemma wellFormed_new_Model: "wellFormed (new_Model sel)"
  by (simp add: wellFormed_def storeInvariant_def new_Model_def)

lemma nonEmptyInvariants_storeInvariant:
  assumes "storeInvariant {} s"
  shows "nonEmptyInvariants s"
  unfolding nonEmptyInvariants_def
proof (intro ballI conjI allI impI)
  fix p assume p: "p \<in> set (content s)"
  then have pa: "p < nextParagraph s"
    using invD1 [OF assms] by simp
  then show "1 \<le> length (Paragraph_content (paragraphs s p))"
    using invD2 [OF assms, of p] by (cases "Paragraph_content (paragraphs s p)") simp_all
  fix c assume c: "c \<in> set (Paragraph_content (paragraphs s p))"
  then have a: "allocatedContent s c"
    using invD3 [OF assms pa] by simp
  then have "Content_text s c < nextText s"
    using invD4 [OF assms] by (cases c) (simp_all add: allocatedContent_def Content_text_def)
  then have "Content_content s c \<noteq> []"
    using invD6 [OF assms] by (simp add: Content_content_def)
  then show "1 \<le> length (Content_content s c)"
    by (cases "Content_content s c") simp_all
  fix l assume "c = LinkRef l"
  with a have l: "l < nextLink s"
    by (simp add: allocatedContent_def)
  have "t < nextText s \<and> Text_parent (texts s t) = OfLink l \<longleftrightarrow> t = Link_text (links s l)" for t
    using invD4 [OF assms l] invD5 [OF assms l] invD7 [OF assms, of t l] by blast
  then show "{t. t < nextText s \<and> Text_parent (texts s t) = OfLink l} = {Link_text (links s l)}"
    by (simp only: singleton_conv)
qed

text \<open>C1. Take a well-formed store and any sequence of the operations of the model
  (\<^verbatim>\<open>insertChar\<close>, \<^verbatim>\<open>insertNewParagraph\<close>, \<^verbatim>\<open>removeNextChar\<close>, \<^verbatim>\<open>removePreviousChar\<close>,
  \<^verbatim>\<open>Selection.remove\<close>, \<^verbatim>\<open>link\<close>, \<^verbatim>\<open>unlink\<close>, and with them \<^verbatim>\<open>updateSelection\<close>,
  \<^verbatim>\<open>removeLinkSelections\<close> and the host moving its selection anywhere) in which every
  operation returns. Then in the store reached every paragraph of the document has a
  content node, the text run of every content node has a character, and every link of
  the document is the parent of exactly one text run; the store is well-formed again, so
  the same holds of the paragraphs that have left the document. An operation that throws
  ends the sequence, and nothing is said here of the store it leaves.\<close>

theorem nonEmpty_after_operations:
  assumes "wellFormed s" and "run cs s = Inr s'"
  shows "nonEmptyInvariants s' \<and> wellFormed s'"
  using inv_run [OF assms(1) [unfolded wellFormed_def] assms(2)]
  by (simp add: nonEmptyInvariants_storeInvariant wellFormed_def)

lemma wellFormed_hello_world: "wellFormed (parsed hello_world)"
  by (simp add: wellFormed_def storeInvariant_def model_defs)

theorem nonEmpty_after_operations_witness:
  "wellFormed (parsed hello_world) \<and>
   textsOf (run [HostSelects ((0, 6), (0, 11)), UpdateSelection, LinkTo ''http://x'',
                 HostSelects ((2, 3), (2, 3)), InsertNewParagraph, InsertChar ''x'',
                 HostSelects ((3, 1), (1, 2)), RemoveNextChar] (parsed hello_world))
     = Inr [[''h'', ''rld'']] \<and>
   (\<exists>s'. run [HostSelects ((0, 6), (0, 11)), UpdateSelection, LinkTo ''http://x'',
                 HostSelects ((2, 3), (2, 3)), InsertNewParagraph, InsertChar ''x'',
                 HostSelects ((3, 1), (1, 2)), RemoveNextChar] (parsed hello_world) = Inr s' \<and>
         nonEmptyInvariants s')"
proof -
  let ?cs = "[HostSelects ((0, 6), (0, 11)), UpdateSelection, LinkTo ''http://x'',
                 HostSelects ((2, 3), (2, 3)), InsertNewParagraph, InsertChar ''x'',
                 HostSelects ((3, 1), (1, 2)), RemoveNextChar]"
  have t: "textsOf (run ?cs (parsed hello_world)) = Inr [[''h'', ''rld'']]"
    by (simp add: model_defs)
  then obtain s' where r: "run ?cs (parsed hello_world) = Inr s'"
    by (cases "run ?cs (parsed hello_world)") (simp_all add: textsOf_def)
  from nonEmpty_after_operations [OF wellFormed_hello_world r] wellFormed_hello_world t r
  show ?thesis by blast
qed

subsection \<open>Parsing\<close>

text \<open>C8. \<^verbatim>\<open>Link.ofMarkdown\<close> checks that the link has one child and not that the child is
  a text inline, where \<^verbatim>\<open>Text.ofMarkdown\<close> checks the type of a child of the paragraph. A
  paragraph whose link holds one code span is parsed without a fault, into a link with
  the literal of the span; a link that holds one emphasis node is parsed into a link with
  one space, and the emphasised text is lost. The same code span as a child of the
  paragraph is a fault.\<close>

theorem Link_ofMarkdown_child_not_text:
  "textsOf (Model_ofMarkdown ((0, 0), (0, 0)) code_link) = Inr [[''x'']] \<and>
   textsOf (Model_ofMarkdown ((0, 0), (0, 0)) emph_link) = Inr [['' '']] \<and>
   thrown (Model_ofMarkdown ((0, 0), (0, 0))
     (documentNode [paragraphNode [MarkdownNode ''code'' (Some ''x'') None []]])) = Some NotAText"
  by (simp add: model_defs code_link_def emph_link_def)

subsection \<open>Splitting and combining\<close>

lemma copyAdd_fields [simp]:
  "nextParagraph (copyAdd p c s) = nextParagraph s"
  "content (copyAdd p c s) = content s"
  "nextText (copyAdd p c s) = Suc (nextText s)"
  "nextLink (copyAdd p c s) = (if isText c then nextLink s else Suc (nextLink s))"
  "Paragraph_content (paragraphs (copyAdd p c s) q) =
     (if q = p then Paragraph_content (paragraphs s p) @ [copyOf s c]
      else Paragraph_content (paragraphs s q))"
  by (cases c; simp add: copyAdd_def Content_copyToParent_def Paragraph_addContent_def
        split_beta isText_def copyOf_def)+

lemma copyAdd_texts:
  "Text_content (texts (copyAdd p c s) t) =
     (if t = nextText s then (if Content_content s c = [] then '' '' else Content_content s c)
      else Text_content (texts s t))"
  "Text_parent (texts (copyAdd p c s) t) =
     (if t = nextText s then (case c of TextRef t' \<Rightarrow> OfParagraph p | LinkRef l \<Rightarrow> OfLink (nextLink s))
      else Text_parent (texts s t))"
  by (cases c; simp add: copyAdd_def Content_copyToParent_def Paragraph_addContent_def
        split_beta Content_content_def Content_text_def)+

lemma copyAdd_links:
  "l < nextLink s \<Longrightarrow> links (copyAdd p c s) l = links s l"
  "\<not> isText c \<Longrightarrow> Link_text (links (copyAdd p c s) (nextLink s)) = nextText s"
  "\<not> isText c \<Longrightarrow> Link_parent (links (copyAdd p c s) (nextLink s)) = p"
  by (cases c; simp add: copyAdd_def Content_copyToParent_def Paragraph_addContent_def
        split_beta isText_def)+

lemma inv_copyAdd:
  "storeInvariant Q s \<Longrightarrow> storeInvariant Q (copyAdd p c s)"
  unfolding copyAdd_def split_beta Let_def
  by (rule storeInvariant_mono[OF inv_copy_add]) auto

lemma copyAdd_texts_old: "t < nextText s \<Longrightarrow> texts (copyAdd p c s) t = texts s t"
  by (cases c; simp add: copyAdd_def Content_copyToParent_def Paragraph_addContent_def
        split_beta new_Text_eq new_Link_eq set_Paragraph_content_def)

lemma keeps_refl [simp]: "keeps s s"
  by (simp add: keeps_def)

lemma keeps_trans: "keeps s s1 \<Longrightarrow> keeps s1 s2 \<Longrightarrow> keeps s s2"
  by (auto simp: keeps_def)

lemma keeps_copyAdd: "keeps s (copyAdd p c s)"
  by (simp add: keeps_def copyAdd_texts_old copyAdd_links)

lemma keeps_copyAll: "keeps s (copyAll p cs s)"
  by (induction cs arbitrary: s) (auto intro: keeps_trans keeps_copyAdd)

lemma keeps_allocated: "keeps s s' \<Longrightarrow> allocatedContent s c \<Longrightarrow> allocatedContent s' c"
  by (cases c) (auto simp: keeps_def allocatedContent_def)

lemma keeps_Content:
  assumes "keeps s s'" and "storeInvariant Q s" and "allocatedContent s c"
  shows "Content_text s' c = Content_text s c"
    and "Content_content s' c = Content_content s c"
    and "parentIs s' q c = parentIs s q c"
    and "Content_text s c < nextText s"
  using assms
  by (cases c; auto simp: keeps_def allocatedContent_def Content_text_def Content_content_def
        parentIs_def dest: invD4)+

lemma inv_copyAll:
  "storeInvariant Q s \<Longrightarrow> storeInvariant Q (copyAll p cs s)"
  by (induction cs arbitrary: s) (auto intro: inv_copyAdd)

lemma copyAll_paragraphs_other:
  "q \<noteq> p \<Longrightarrow> Paragraph_content (paragraphs (copyAll p cs s) q) = Paragraph_content (paragraphs s q)"
  by (induction cs arbitrary: s) auto

lemma copyOf_facts:
  assumes "storeInvariant Q s" and "allocatedContent s c"
  shows "isText (copyOf s c) = isText c"
    and "Content_text (copyAdd p c s) (copyOf s c) = nextText s"
    and "Content_content (copyAdd p c s) (copyOf s c) = Content_content s c"
    and "parentIs (copyAdd p c s) p (copyOf s c)"
    and "allocatedContent (copyAdd p c s) (copyOf s c)"
  using assms
  by (cases c; auto simp: copyOf_def isText_def Content_text_def Content_content_def parentIs_def
        copyAdd_texts copyAdd_links allocatedContent_def dest: invD4 invD6)+

lemma copyAll_effect:
  assumes "storeInvariant Q s" and "\<forall>c \<in> set xs. allocatedContent s c"
  shows "\<exists>zs. Paragraph_content (paragraphs (copyAll p xs s) p) = Paragraph_content (paragraphs s p) @ zs \<and>
           copies s (copyAll p xs s) p xs zs"
  using assms
proof (induction xs arbitrary: s)
  case Nil
  then show ?case by (simp add: copies_def)
next
  case (Cons x xs)
  let ?s1 = "copyAdd p x s"
  let ?s' = "copyAll p xs ?s1"
  have inv1: "storeInvariant Q ?s1" using Cons.prems(1) by (rule inv_copyAdd)
  have k1: "keeps s ?s1" by (rule keeps_copyAdd)
  have k2: "keeps ?s1 ?s'" by (rule keeps_copyAll)
  have ax: "allocatedContent s x" using Cons.prems(2) by simp
  have al1: "\<forall>c \<in> set xs. allocatedContent ?s1 c"
    using Cons.prems(2) k1 by (auto intro: keeps_allocated)
  from Cons.IH[OF inv1 al1] obtain zs where
    zs: "Paragraph_content (paragraphs ?s' p) = Paragraph_content (paragraphs ?s1 p) @ zs"
    and c: "copies ?s1 ?s' p xs zs" by blast
  let ?z = "copyOf s x"
  have az: "allocatedContent ?s1 ?z" using Cons.prems(1) ax by (rule copyOf_facts)
  have z1: "Content_text ?s' ?z = nextText s"
    using keeps_Content(1)[OF k2 inv1 az] copyOf_facts(2)[OF Cons.prems(1) ax] by simp
  have z2: "Content_content ?s' ?z = Content_content s x"
    using keeps_Content(2)[OF k2 inv1 az] copyOf_facts(3)[OF Cons.prems(1) ax] by simp
  have z3: "parentIs ?s' p ?z"
    using keeps_Content(3)[OF k2 inv1 az] copyOf_facts(4)[OF Cons.prems(1) ax] by simp
  have z4: "allocatedContent ?s' ?z" using k2 az by (rule keeps_allocated)
  have z5: "isText ?z = isText x" using Cons.prems(1) ax by (rule copyOf_facts)
  have m: "map (Content_content ?s1) xs = map (Content_content s) xs"
    using Cons.prems keeps_Content(2)[OF k1 Cons.prems(1)] by simp
  have "copies s (copyAll p (x # xs) s) p (x # xs) (?z # zs)"
    using c z1 z2 z3 z4 z5 m by (auto simp: copies_def)
  moreover have "Paragraph_content (paragraphs (copyAll p (x # xs) s) p)
      = Paragraph_content (paragraphs s p) @ ?z # zs"
    using zs by simp
  ultimately show ?case by blast
qed

lemma splitInvD:
  assumes "splitInv s pre p"
  shows "storeInvariant {pre} s" and "pre < nextParagraph s" and "p < nextParagraph s"
    and "pre \<noteq> p"
    and "distinct (map (Content_text s)
       (Paragraph_content (paragraphs s pre) @ Paragraph_content (paragraphs s p)))"
    and "\<And>c. c \<in> set (Paragraph_content (paragraphs s p)) \<Longrightarrow> parentIs s p c"
    and "\<And>c. c \<in> set (Paragraph_content (paragraphs s p)) \<Longrightarrow> allocatedContent s c"
    and "\<And>c. c \<in> set (Paragraph_content (paragraphs s pre)) \<Longrightarrow> allocatedContent s c"
  using assms by (auto simp: splitInv_def dest: invD3)

lemma distinct_insert_fresh:
  fixes N :: nat
  assumes "distinct (as @ bs)" and "distinct zs" and "\<forall>z \<in> set zs. N \<le> z"
    and "\<forall>a \<in> set as \<union> set bs. a < N"
  shows "distinct ((as @ zs) @ bs)"
proof -
  have "x \<notin> set zs" if "x \<in> set as \<union> set bs" for x
  proof
    assume "x \<in> set zs"
    with assms(3) have "N \<le> x" by blast
    moreover from that assms(4) have "x < N" by blast
    ultimately show False by simp
  qed
  then have "set as \<inter> set zs = {}" and "set zs \<inter> set bs = {}" by blast+
  then show ?thesis using assms(1,2) by auto
qed

lemma splitInv_copyAll:
  assumes "splitInv s pre p" and "set xs \<subseteq> set (Paragraph_content (paragraphs s p))"
  shows "splitInv (copyAll pre xs s) pre p"
    and "paragraphView (copyAll pre xs s) pre = paragraphView s pre @ map (view s) xs"
    and "Paragraph_content (paragraphs (copyAll pre xs s) p) = Paragraph_content (paragraphs s p)"
    and "\<And>c. c \<in> set (Paragraph_content (paragraphs s p)) \<Longrightarrow>
           Content_content (copyAll pre xs s) c = Content_content s c \<and>
           Content_text (copyAll pre xs s) c = Content_text s c"
    and "content (copyAll pre xs s) = content s"
proof -
  let ?s' = "copyAll pre xs s"
  note I = splitInvD[OF assms(1)]
  have k: "keeps s ?s'" by (rule keeps_copyAll)
  have inv': "storeInvariant {pre} ?s'" using I(1) by (rule inv_copyAll)
  have ax: "\<forall>c \<in> set xs. allocatedContent s c" using assms(2) I(7) by blast
  from copyAll_effect[OF I(1) ax, of pre] obtain zs where
    zs: "Paragraph_content (paragraphs ?s' pre) = Paragraph_content (paragraphs s pre) @ zs"
    and c: "copies s ?s' pre xs zs" by blast
  show p': "Paragraph_content (paragraphs ?s' p) = Paragraph_content (paragraphs s p)"
    using I(4) by (simp add: copyAll_paragraphs_other)
  have old: "Content_text ?s' d = Content_text s d \<and> Content_content ?s' d = Content_content s d
      \<and> parentIs ?s' p d = parentIs s p d \<and> Content_text s d < nextText s"
    if "allocatedContent s d" for d
    using keeps_Content[OF k I(1) that] by simp
  show "\<And>c. c \<in> set (Paragraph_content (paragraphs s p)) \<Longrightarrow>
           Content_content ?s' c = Content_content s c \<and> Content_text ?s' c = Content_text s c"
    using old I(7) by simp
  show "content ?s' = content s" using k by (simp add: keeps_def)
  have m1: "map (Content_text ?s') (Paragraph_content (paragraphs s pre))
      = map (Content_text s) (Paragraph_content (paragraphs s pre))"
    using old I(8) by simp
  have m2: "map (Content_text ?s') (Paragraph_content (paragraphs s p))
      = map (Content_text s) (Paragraph_content (paragraphs s p))"
    using old I(7) by simp
  have fresh: "\<forall>z \<in> set zs. nextText s \<le> Content_text ?s' z" using c by (simp add: copies_def)
  have lt: "\<forall>a \<in> set (map (Content_text s) (Paragraph_content (paragraphs s pre)))
        \<union> set (map (Content_text s) (Paragraph_content (paragraphs s p))). a < nextText s"
  proof
    fix a
    assume "a \<in> set (map (Content_text s) (Paragraph_content (paragraphs s pre)))
        \<union> set (map (Content_text s) (Paragraph_content (paragraphs s p)))"
    then obtain d where "a = Content_text s d" and "allocatedContent s d"
      using I(7,8) by auto
    then show "a < nextText s" using old by simp
  qed
  have fresh': "\<forall>z \<in> set (map (Content_text ?s') zs). nextText s \<le> z"
    using fresh by simp
  have dz: "distinct (map (Content_text ?s') zs)" using c by (simp add: copies_def)
  have d0: "distinct (map (Content_text s) (Paragraph_content (paragraphs s pre))
       @ map (Content_text s) (Paragraph_content (paragraphs s p)))"
    using I(5) by simp
  have d: "distinct (map (Content_text ?s')
       (Paragraph_content (paragraphs ?s' pre) @ Paragraph_content (paragraphs ?s' p)))"
    unfolding zs p' using distinct_insert_fresh[OF d0 dz fresh' lt]
    by (simp add: m1 m2)
  have par: "\<forall>c \<in> set (Paragraph_content (paragraphs ?s' p)). parentIs ?s' p c"
    unfolding p' using old I(6,7) by simp
  show "splitInv ?s' pre p"
    unfolding splitInv_def using inv' I(2,3,4) d par k by (simp add: keeps_def)
  have v1: "map (view ?s') (Paragraph_content (paragraphs s pre))
      = map (view s) (Paragraph_content (paragraphs s pre))"
    using old I(8) by (simp add: view_def)
  have v2: "map (view ?s') zs = map (view s) xs"
    using c by (simp add: copies_def view_def list_eq_iff_nth_eq)
  show "paragraphView ?s' pre = paragraphView s pre @ map (view s) xs"
    by (simp add: paragraphView_def zs v1 v2)
qed

lemma Text_set_content_obs [simp]:
  "Content_text (Text_set_content t v s) c = Content_text s c"
  "Content_content (Text_set_content t v s) c =
     (if Content_text s c = t then (if v = [] then '' '' else v) else Content_content s c)"
  "parentIs (Text_set_content t v s) q c = parentIs s q c"
  "allocatedContent (Text_set_content t v s) c = allocatedContent s c"
  by (cases c; simp add: Content_text_def Content_content_def parentIs_def allocatedContent_def)+

lemma set_Paragraph_content_obs [simp]:
  "Content_text (set_Paragraph_content p cs s) c = Content_text s c"
  "Content_content (set_Paragraph_content p cs s) c = Content_content s c"
  "parentIs (set_Paragraph_content p cs s) q c = parentIs s q c"
  "view (set_Paragraph_content p cs s) c = view s c"
  "allocatedContent (set_Paragraph_content p cs s) c = allocatedContent s c"
  by (cases c; simp add: Content_text_def Content_content_def parentIs_def view_def
        allocatedContent_def)+

lemma content_update_obs [simp]:
  "Content_text (s\<lparr>content := ps\<rparr>) c = Content_text s c"
  "Content_content (s\<lparr>content := ps\<rparr>) c = Content_content s c"
  "parentIs (s\<lparr>content := ps\<rparr>) q c = parentIs s q c"
  "view (s\<lparr>content := ps\<rparr>) c = view s c"
  by (cases c; simp add: Content_text_def Content_content_def parentIs_def view_def)+

lemma Text_set_content_obs_fun [simp]:
  "Content_text (Text_set_content t v s) = Content_text s"
  "parentIs (Text_set_content t v s) q = parentIs s q"
  by (rule ext, simp)+

lemma set_Paragraph_content_obs_fun [simp]:
  "Content_text (set_Paragraph_content p cs s) = Content_text s"
  "Content_content (set_Paragraph_content p cs s) = Content_content s"
  "parentIs (set_Paragraph_content p cs s) q = parentIs s q"
  "view (set_Paragraph_content p cs s) = view s"
  by (rule ext, simp)+

lemma content_update_obs_fun [simp]:
  "Content_text (s\<lparr>content := ps\<rparr>) = Content_text s"
  "Content_content (s\<lparr>content := ps\<rparr>) = Content_content s"
  "parentIs (s\<lparr>content := ps\<rparr>) q = parentIs s q"
  "view (s\<lparr>content := ps\<rparr>) = view s"
  by (rule ext, simp)+

lemma splitInv_Text_set_content:
  "splitInv s pre p \<Longrightarrow> splitInv (Text_set_content t v s) pre p"
  by (simp add: splitInv_def inv_Text_set_content)

lemma map_update_last:
  assumes "distinct (map f xs)" and "xs \<noteq> []"
  shows "map (\<lambda>c. if f c = f (last xs) then g c else h c) xs = map h (butlast xs) @ [g (last xs)]"
proof -
  have xs: "xs = butlast xs @ [last xs]" using assms(2) by simp
  have "distinct (map f (butlast xs) @ [f (last xs)])"
    using assms(1) by (subst (asm) xs) simp
  then have "f (last xs) \<notin> set (map f (butlast xs))" by simp
  then have ne: "\<And>c. c \<in> set (butlast xs) \<Longrightarrow> f c \<noteq> f (last xs)"
    by (metis image_eqI set_map)
  have "map (\<lambda>c. if f c = f (last xs) then g c else h c) (butlast xs @ [last xs])
      = map h (butlast xs) @ [g (last xs)]"
    using ne by simp
  then show ?thesis using xs by simp
qed

lemma map_update_absent:
  "\<forall>c \<in> set ys. f c \<noteq> z \<Longrightarrow> map (\<lambda>c. if f c = z then g c else h c) ys = map h ys"
  by simp

lemma splitInv_appendText:
  assumes "splitInv s pre p"
  shows "splitInv (Paragraph_appendText pre v s) pre p"
    and "paragraphView (Paragraph_appendText pre v s) pre = appendView (paragraphView s pre) v"
    and "Paragraph_content (paragraphs (Paragraph_appendText pre v s) p) = Paragraph_content (paragraphs s p)"
    and "\<And>c. c \<in> set (Paragraph_content (paragraphs s p)) \<Longrightarrow>
           Content_content (Paragraph_appendText pre v s) c = Content_content s c \<and>
           Content_text (Paragraph_appendText pre v s) c = Content_text s c"
    and "content (Paragraph_appendText pre v s) = content s"
proof -
  note I = splitInvD[OF assms]
  let ?P = "Paragraph_content (paragraphs s pre)"
  let ?s' = "Paragraph_appendText pre v s"
  show "content ?s' = content s"
    by (simp add: Paragraph_appendText_def Let_def split_beta Text_append_def Paragraph_addContent_def)
  show "Paragraph_content (paragraphs ?s' p) = Paragraph_content (paragraphs s p)"
    using I(4)
    by (simp add: Paragraph_appendText_def Let_def split_beta Text_append_def Paragraph_addContent_def)
  show "splitInv ?s' pre p"
  proof (cases "?P \<noteq> [] \<and> isText (last ?P)")
    case True
    then show ?thesis using assms
      by (simp add: Paragraph_appendText_def Let_def Text_append_def splitInv_Text_set_content)
  next
    case False
    let ?N = "nextText s"
    let ?s1 = "snd (new_Text (OfParagraph pre) v s)"
    have s': "?s' = Paragraph_addContent pre (TextRef ?N) ?s1"
      using False by (auto simp: Paragraph_appendText_def Let_def split_beta)
    have inv1: "storeInvariant {pre} ?s1" using I(1) by (rule inv_new_Text)
    have "storeInvariant ({pre} - {pre}) (Paragraph_addContent pre (TextRef ?N) ?s1)"
      using inv1 by (rule inv_Paragraph_addContent) (simp add: allocatedContent_def)
    then have inv': "storeInvariant {pre} ?s'"
      unfolding s' by (rule storeInvariant_mono) simp
    have k: "keeps s ?s1" by (simp add: keeps_def new_Text_eq)
    have old: "Content_text ?s1 d = Content_text s d \<and> parentIs ?s1 p d = parentIs s p d
        \<and> Content_text s d < nextText s"
      if "allocatedContent s d" for d
      using keeps_Content[OF k I(1) that] by simp
    have lt: "\<forall>a \<in> set (map (Content_text s) ?P)
        \<union> set (map (Content_text s) (Paragraph_content (paragraphs s p))). a < ?N"
    proof
      fix a
      assume "a \<in> set (map (Content_text s) ?P)
          \<union> set (map (Content_text s) (Paragraph_content (paragraphs s p)))"
      then obtain d where "a = Content_text s d" and "allocatedContent s d"
        using I(7,8) by auto
      then show "a < ?N" using old by simp
    qed
    have d0: "distinct (map (Content_text s) ?P
         @ map (Content_text s) (Paragraph_content (paragraphs s p)))"
      using I(5) by simp
    have m1: "map (Content_text ?s1) ?P = map (Content_text s) ?P" using old I(8) by simp
    have m2: "map (Content_text ?s1) (Paragraph_content (paragraphs s p))
        = map (Content_text s) (Paragraph_content (paragraphs s p))" using old I(7) by simp
    have d: "distinct (map (Content_text ?s')
       (Paragraph_content (paragraphs ?s' pre) @ Paragraph_content (paragraphs ?s' p)))"
      unfolding s' using distinct_insert_fresh[OF d0 _ _ lt, of "[?N]"] I(4)
      by (simp add: Paragraph_addContent_def m1 m2 Content_text_def[of _ "TextRef _"])
    have par: "\<forall>c \<in> set (Paragraph_content (paragraphs ?s' p)). parentIs ?s' p c"
      unfolding s' using I(4,6,7) old by (simp add: Paragraph_addContent_def)
    show ?thesis
      unfolding splitInv_def using inv' d par I(2,3,4)
      by (simp add: s' Paragraph_addContent_def)
  qed
  have br: "(paragraphView s pre \<noteq> [] \<and> fst (last (paragraphView s pre)))
      = (?P \<noteq> [] \<and> isText (last ?P))"
    by (cases "?P = []") (simp_all add: paragraphView_def last_map view_def)
  show "paragraphView ?s' pre = appendView (paragraphView s pre) v"
  proof (cases "?P \<noteq> [] \<and> isText (last ?P)")
    case True
    let ?z = "Content_text s (last ?P)"
    have s': "?s' = Text_set_content ?z (Text_content (texts s ?z) @ v) s"
      using True by (simp add: Paragraph_appendText_def Let_def Text_append_def)
    have dP: "distinct (map (Content_text s) ?P)" using I(5) by simp
    have al: "allocatedContent s (last ?P)" using True I(8) by simp
    have ne: "Text_content (texts s ?z) \<noteq> []"
      using keeps_Content(4)[OF keeps_refl I(1) al] I(1) by (auto dest: invD6)
    have "map (view ?s') ?P =
        map (\<lambda>c. if Content_text s c = Content_text s (last ?P)
                  then (isText c, Text_content (texts s ?z) @ v) else view s c) ?P"
      unfolding s' using ne by (simp add: view_def)
    also have "\<dots> = map (view s) (butlast ?P) @ [(isText (last ?P), Text_content (texts s ?z) @ v)]"
      using map_update_last[OF dP, of "\<lambda>c. (isText c, Text_content (texts s ?z) @ v)" "view s"] True
      by simp
    finally show ?thesis
      using True br
      by (simp add: paragraphView_def appendView_def s' last_map map_butlast view_def
          Content_content_def)
  next
    case False
    let ?N = "nextText s"
    let ?s1 = "snd (new_Text (OfParagraph pre) v s)"
    have s': "?s' = Paragraph_addContent pre (TextRef ?N) ?s1"
      using False by (auto simp: Paragraph_appendText_def Let_def split_beta)
    have k: "keeps s ?s1" by (simp add: keeps_def new_Text_eq)
    have m: "map (view ?s1) ?P = map (view s) ?P"
      using keeps_Content(2)[OF k I(1)] I(8) by (simp add: view_def)
    have "appendView (paragraphView s pre) v
        = paragraphView s pre @ [(True, if v = [] then '' '' else v)]"
      using False br unfolding appendView_def by presburger
    then show ?thesis
      by (simp add: paragraphView_def s' Paragraph_addContent_def m
          view_def[of _ "TextRef _"] isText_def Content_content_def Content_text_def[of _ "TextRef _"])
  qed
  show "\<And>c. c \<in> set (Paragraph_content (paragraphs s p)) \<Longrightarrow>
           Content_content ?s' c = Content_content s c \<and> Content_text ?s' c = Content_text s c"
  proof -
    fix c assume c: "c \<in> set (Paragraph_content (paragraphs s p))"
    show "Content_content ?s' c = Content_content s c \<and> Content_text ?s' c = Content_text s c"
    proof (cases "?P \<noteq> [] \<and> isText (last ?P)")
      case True
      then have "last ?P \<in> set ?P" by simp
      then have "Content_text s c \<noteq> Content_text s (last ?P)"
        using I(5) c by auto
      then show ?thesis using True
        by (simp add: Paragraph_appendText_def Let_def Text_append_def)
    next
      case False
      let ?s1 = "snd (new_Text (OfParagraph pre) v s)"
      have s': "?s' = Paragraph_addContent pre (TextRef (nextText s)) ?s1"
        using False by (auto simp: Paragraph_appendText_def Let_def split_beta)
      have k: "keeps s ?s1" by (simp add: keeps_def new_Text_eq)
      show ?thesis
        using keeps_Content(1,2)[OF k I(1) I(7)[OF c]]
        by (simp add: s' Paragraph_addContent_def)
    qed
  qed
qed

lemma combineWith_loop_copyAll: "combineWith_loop this l False cs s = copyAll this cs s"
  by (induction cs arbitrary: s) (simp_all add: copyAdd_def)

lemma copyAll_single: "copyAll p [c] s = copyAdd p c s"
  by simp

lemma splitTo_loop_prefix:
  assumes "splitInv s pre p" and "set xs \<subseteq> set (Paragraph_content (paragraphs s p))"
    and "\<forall>c \<in> set xs. Content_text s c \<noteq> ft"
  shows "splitTo_loop pre ft off (xs @ rest) acc s
       = splitTo_loop pre ft off rest (acc @ xs) (copyAll pre xs s)"
  using assms
proof (induction xs arbitrary: s acc)
  case Nil
  then show ?case by simp
next
  case (Cons x xs)
  let ?s1 = "copyAdd pre x s"
  have sub: "set [x] \<subseteq> set (Paragraph_content (paragraphs s p))" using Cons.prems(2) by simp
  note E = splitInv_copyAll[OF Cons.prems(1) sub, unfolded copyAll_single]
  have 1: "splitInv ?s1 pre p" by (rule E(1))
  have 2: "set xs \<subseteq> set (Paragraph_content (paragraphs ?s1 p))"
    unfolding E(3) using Cons.prems(2) by simp
  have 3: "\<forall>c \<in> set xs. Content_text ?s1 c \<noteq> ft"
  proof
    fix c assume c: "c \<in> set xs"
    then have "c \<in> set (Paragraph_content (paragraphs s p))" using Cons.prems(2) by auto
    then have "Content_text ?s1 c = Content_text s c" using E(4) by blast
    then show "Content_text ?s1 c \<noteq> ft" using Cons.prems(3) c by simp
  qed
  have "splitTo_loop pre ft off ((x # xs) @ rest) acc s
      = splitTo_loop pre ft off (xs @ rest) (acc @ [x]) ?s1"
    using Cons.prems(3) by (simp add: copyAdd_def split_beta Let_def)
  also have "\<dots> = splitTo_loop pre ft off rest ((acc @ [x]) @ xs) (copyAll pre xs ?s1)"
    by (rule Cons.IH[OF 1 2 3])
  finally show ?case by simp
qed

lemma previousOfMapped_in_set: "previousOfMapped xs f i = Some x \<Longrightarrow> x \<in> set xs"
  by (induction xs f i rule: previousOfMapped.induct) (auto split: if_splits)

lemma previousOfMapped_first: "f x = i \<Longrightarrow> previousOfMapped (x # xs) f i = None"
  by (cases xs) simp_all

lemma Model_getPrecedingText_Inr:
  assumes "\<forall>q \<in> set (content s). Paragraph_content (paragraphs s q) \<noteq> []"
  shows "\<exists>r. Model_getPrecedingText s p = Inr r"
  using assms
  by (auto simp: Model_getPrecedingText_def previousOf_def Paragraph_lastText_def
      Paragraph_lastContent_def dest: previousOfMapped_in_set split: option.splits)

lemma set_Paragraph_content_twice [simp]:
  "set_Paragraph_content p cs (set_Paragraph_content p cs' s) = set_Paragraph_content p cs s"
  by (simp add: set_Paragraph_content_def)

lemma set_Paragraph_content_same:
  "Paragraph_content (paragraphs s p) = cs \<Longrightarrow> set_Paragraph_content p cs s = s"
  by (auto simp: set_Paragraph_content_def)

lemma Content_remove_first:
  assumes "Paragraph_content (paragraphs s p) = x # rest" and "rest \<noteq> []"
    and "parentIs s p x"
    and "\<forall>q \<in> set (content s). Paragraph_content (paragraphs s q) \<noteq> []"
  shows "Content_remove x s = Inr (set_Paragraph_content p rest s)"
proof (cases x)
  case (TextRef t)
  then have par: "Text_parent (texts s t) = OfParagraph p" using assms(3) by (simp add: parentIs_def)
  obtain r where "Model_getPrecedingText s p = Inr r"
    using Model_getPrecedingText_Inr[OF assms(4)] by blast
  then have "Text_getPrecedingText s t = Inr r"
    using assms(1) TextRef par
    by (simp add: Text_getPrecedingText_def Paragraph_getPrecedingText_def
        previousOfMapped_first Content_text_def)
  then show ?thesis
    using assms(1,2) TextRef par
    by (simp add: Content_remove_def Text_remove_def Paragraph_removeContent_def remove_def)
next
  case (LinkRef l)
  then have par: "Link_parent (links s l) = p" using assms(3) by (simp add: parentIs_def)
  show ?thesis
    using assms(1,2) LinkRef par
    by (simp add: Content_remove_def Link_remove_def Paragraph_removeContent_def remove_def)
qed

lemma removeAll_loop_prefix:
  assumes "Paragraph_content (paragraphs s p) = xs @ rest" and "rest \<noteq> []"
    and "\<forall>c \<in> set xs. parentIs s p c"
    and "\<forall>q \<in> set (content s). Paragraph_content (paragraphs s q) \<noteq> []"
  shows "removeAll_loop xs s = Inr (set_Paragraph_content p rest s)"
  using assms
proof (induction xs arbitrary: s)
  case Nil
  then show ?case by (simp add: set_Paragraph_content_same)
next
  case (Cons x xs)
  let ?s1 = "set_Paragraph_content p (xs @ rest) s"
  have r: "Content_remove x s = Inr ?s1"
    using Cons.prems by (intro Content_remove_first) auto
  have "removeAll_loop xs ?s1 = Inr (set_Paragraph_content p rest ?s1)"
    using Cons.prems by (intro Cons.IH) auto
  then show ?case using r by simp
qed

lemma appendView_nonempty [simp]: "appendView V v \<noteq> []"
  by (simp add: appendView_def)

lemma paragraphView_empty: "paragraphView s p = [] \<longleftrightarrow> Paragraph_content (paragraphs s p) = []"
  by (simp add: paragraphView_def)

lemma distinct_map_mid:
  assumes "distinct (map f (xs @ y # ys))"
  shows "\<forall>x \<in> set xs. f x \<noteq> f y" and "\<forall>x \<in> set ys. f x \<noteq> f y"
  using assms by (auto simp: image_iff)

lemma distinct_map_disjoint:
  assumes "distinct (map f (xs @ ys))" and "x \<in> set xs" and "y \<in> set ys"
  shows "f x \<noteq> f y"
  using assms by (auto simp: image_iff)

lemma Paragraph_splitTo_effect:
  assumes I: "splitInv s pre p"
    and cs: "Paragraph_content (paragraphs s p) = xs @ ck # ys"
    and ft: "Content_text s ck = ft"
    and e: "Paragraph_content (paragraphs s pre) = []"
    and tk: "tk = Content_content s ck"
    and b: "b = substring tk off (int (length tk))"
  shows "\<exists>pt s'. Paragraph_splitTo p pre ft off s = Inr (pt, s') \<and> splitInv s' pre p \<and>
      paragraphView s' pre = appendView (map (view s) xs) (substring tk 0 off) \<and>
      Paragraph_content (paragraphs s' p) = ck # ys \<and>
      Content_content s' ck = (if b = [] then '' '' else b) \<and>
      (\<forall>c \<in> set ys. Content_content s' c = Content_content s c) \<and>
      content s' = content s"
proof -
  note D = splitInvD[OF I]
  have dist: "distinct (map (Content_text s) (xs @ ck # ys))"
    using D(5) cs by simp
  have nx: "\<forall>c \<in> set xs. Content_text s c \<noteq> ft"
    using distinct_map_mid(1)[OF dist] ft by simp
  have ny: "\<forall>c \<in> set ys. Content_text s c \<noteq> ft"
    using distinct_map_mid(2)[OF dist] ft by simp
  have sub: "set xs \<subseteq> set (Paragraph_content (paragraphs s p))" using cs by auto
  have ckin: "ck \<in> set (Paragraph_content (paragraphs s p))" using cs by simp
  have ysin: "\<And>c. c \<in> set ys \<Longrightarrow> c \<in> set (Paragraph_content (paragraphs s p))" using cs by simp
  let ?sa = "copyAll pre xs s"
  note A = splitInv_copyAll[OF I sub]
  have loop1: "splitTo_loop pre ft off (xs @ ck # ys) [] s
      = splitTo_loop pre ft off (ck # ys) ([] @ xs) ?sa"
    using I sub nx by (rule splitTo_loop_prefix)
  have cka: "Content_text ?sa ck = ft" "Content_content ?sa ck = tk"
    using A(4)[OF ckin] ft tk by simp_all
  let ?sb = "Paragraph_appendText pre (substring tk 0 off) ?sa"
  note B = splitInv_appendText[OF A(1), where v = "substring tk 0 off"]
  have pb: "Paragraph_content (paragraphs ?sb p) = xs @ ck # ys"
    using B(3) A(3) cs by simp
  have ina: "\<And>c. c \<in> set (Paragraph_content (paragraphs s p))
      \<Longrightarrow> c \<in> set (Paragraph_content (paragraphs ?sa p))"
    using A(3) by simp
  have obsb: "\<And>c. c \<in> set (Paragraph_content (paragraphs s p))
      \<Longrightarrow> Content_content ?sb c = Content_content s c \<and> Content_text ?sb c = Content_text s c"
    using B(4)[OF ina] A(4) by simp
  have ckb: "Content_text ?sb ck = ft" "Content_content ?sb ck = tk"
    using obsb[OF ckin] ft tk by simp_all
  have len: "Text_length ?sb ft = int (length tk)"
    using ckb by (simp add: Text_length_def Content_content_def)
  let ?sc = "Text_set_content ft b ?sb"
  have loop2: "splitTo_loop pre ft off (ck # ys) xs ?sa = (xs, ?sc)"
    using cka len ckb b by (simp add: Let_def Content_set_content_def)
  have C1: "splitInv ?sc pre p" using B(1) by (rule splitInv_Text_set_content)
  note DB = splitInvD[OF B(1)]
  have npre: "\<forall>d \<in> set (Paragraph_content (paragraphs ?sb pre)). Content_text ?sb d \<noteq> ft"
  proof
    fix d assume d: "d \<in> set (Paragraph_content (paragraphs ?sb pre))"
    have "ck \<in> set (Paragraph_content (paragraphs ?sb p))" using pb by simp
    then have "Content_text ?sb d \<noteq> Content_text ?sb ck"
      using DB(5) d by (intro distinct_map_disjoint)
    then show "Content_text ?sb d \<noteq> ft" using ckb by simp
  qed
  have vc: "paragraphView ?sc pre = appendView (map (view s) xs) (substring tk 0 off)"
  proof -
    have "paragraphView ?sc pre = paragraphView ?sb pre"
      using npre by (simp add: paragraphView_def view_def)
    also have "\<dots> = appendView (paragraphView ?sa pre) (substring tk 0 off)" by (rule B(2))
    also have "paragraphView ?sa pre = map (view s) xs"
      using A(2) e by (simp add: paragraphView_def)
    finally show ?thesis .
  qed
  have pc: "Paragraph_content (paragraphs ?sc p) = xs @ ck # ys" using pb by simp
  have ckc: "Content_content ?sc ck = (if b = [] then '' '' else b)"
    using ckb by simp
  have ysc: "\<forall>c \<in> set ys. Content_content ?sc c = Content_content s c"
    using obsb[OF ysin] ny by simp
  have contc: "content ?sc = content s" using B(5) A(5) by simp
  let ?sd = "set_Paragraph_content p (ck # ys) ?sc"
  note DC = splitInvD[OF C1]
  have nonempty: "\<forall>q \<in> set (content ?sc). Paragraph_content (paragraphs ?sc q) \<noteq> []"
  proof
    fix q assume q: "q \<in> set (content ?sc)"
    show "Paragraph_content (paragraphs ?sc q) \<noteq> []"
    proof (cases "q = pre")
      case True
      have "paragraphView ?sc pre \<noteq> []" unfolding vc by simp
      then show ?thesis using True by (simp add: paragraphView_empty)
    next
      case False
      have "q < nextParagraph ?sc" using DC(1) q by (rule invD1)
      then show ?thesis using DC(1) False by (intro invD2[where Q = "{pre}"]) auto
    qed
  qed
  have parx: "\<forall>c \<in> set xs. parentIs ?sc p c" using DC(6) pc by simp
  have rem: "removeAll_loop xs ?sc = Inr ?sd"
    using pc _ parx nonempty by (rule removeAll_loop_prefix) simp
  have invd: "storeInvariant {pre} ?sd"
  proof -
    have "storeInvariant ({pre} - {p}) ?sd"
      using DC(1) by (rule inv_set_Paragraph_content) (use DC(7) pc in auto)
    then show ?thesis by (rule storeInvariant_mono) simp
  qed
  have I_d: "splitInv ?sd pre p"
    unfolding splitInv_def using invd DC(2,3,4,5,6) pc by auto
  have vd: "paragraphView ?sd pre = paragraphView ?sc pre"
    using DC(4) by (simp add: paragraphView_def)
  have ne_pre: "\<not> Paragraph_empty ?sd pre"
    using vc vd paragraphView_empty[of ?sd pre] by (simp add: Paragraph_empty_def)
  have first: "Paragraph_firstText ?sd p = Inr (Content_text ?sd ck)"
    by (simp add: Paragraph_firstText_def Paragraph_firstContent_def)
  have r1: "Paragraph_splitTo p pre ft off s = Inr (Point (Content_text ?sd ck) 0, ?sd)"
    unfolding Paragraph_splitTo_def cs
    using loop1 loop2 rem ne_pre first by (simp add: Let_def)
  have r2: "paragraphView ?sd pre = appendView (map (view s) xs) (substring tk 0 off)"
    using vc vd by simp
  have r3: "Paragraph_content (paragraphs ?sd p) = ck # ys" by simp
  have r4: "Content_content ?sd ck = (if b = [] then '' '' else b)" using ckc by simp
  have r5: "\<forall>c \<in> set ys. Content_content ?sd c = Content_content s c" using ysc by simp
  have r6: "content ?sd = content s" using contc by simp
  from r1 I_d r2 r3 r4 r5 r6 show ?thesis by blast
qed

lemma Paragraph_combineWith_effect:
  assumes I: "splitInv s pre p"
    and pp: "Paragraph_content (paragraphs s p) = ck # ys"
    and V: "paragraphView s pre = V" "V \<noteq> []" "fst (last V)"
    and pin: "p \<in> set (content s)"
    and cc: "cc = Content_content s ck"
  shows "\<exists>pt s'. Paragraph_combineWith pre p s = Inr (pt, s') \<and>
      paragraphTexts s' pre =
        (if isText ck
         then map snd (butlast V) @
              [if trim (snd (last V)) \<noteq> [] then snd (last V) @ cc else cc] @
              map (Content_content s) ys
         else map snd V @ map (Content_content s) (ck # ys))"
proof -
  note D = splitInvD[OF I]
  let ?P = "Paragraph_content (paragraphs s pre)"
  let ?l = "last ?P"
  have Pne: "?P \<noteq> []" using V by (auto simp: paragraphView_def)
  have lV: "last V = view s ?l" using V Pne by (auto simp: paragraphView_def last_map)
  have lt: "isText ?l" using V(3) lV by (simp add: view_def)
  have lc: "Content_content s ?l = snd (last V)" using lV by (simp add: view_def)
  have ckin: "ck \<in> set (Paragraph_content (paragraphs s p))" using pp by simp
  have ccne: "cc \<noteq> []"
  proof -
    have al: "allocatedContent s ck" using D(7) ckin by simp
    have "Content_text s ck < nextText s" using keeps_Content(4)[OF keeps_refl D(1) al] .
    then show ?thesis using D(1) cc by (auto simp: Content_content_def dest: invD6)
  qed
  have pts: "paragraphTexts s' pre = map snd (paragraphView s' pre)" for s'
    by (simp add: paragraphTexts_def paragraphView_def view_def comp_def)
  have ne: "p \<noteq> pre" using D(4) by simp
  show ?thesis
  proof (cases "isText ck")
    case True
    let ?z = "Content_text s ?l"
    define v where "v = (if trim (snd (last V)) \<noteq> [] then snd (last V) @ cc else cc)"
    let ?se = "Text_set_content ?z v s"
    let ?sf = "copyAll pre ys ?se"
    have vne: "v \<noteq> []" using ccne by (simp add: v_def)
    have loop: "combineWith_loop pre ?l True (ck # ys) s = ?sf"
      using True lt lc cc
      by (simp add: combineWith_loop_copyAll Text_append_def Content_set_content_def
          Content_content_def v_def)
    have Ie: "splitInv ?se pre p" using I by (rule splitInv_Text_set_content)
    have dP: "distinct (map (Content_text s) ?P)" using D(5) by simp
    have ve: "paragraphView ?se pre = map (view s) (butlast ?P) @ [(True, v)]"
    proof -
      have "paragraphView ?se pre =
          map (\<lambda>c. if Content_text s c = Content_text s ?l then (isText c, v) else view s c) ?P"
        using vne by (simp add: paragraphView_def view_def)
      also have "\<dots> = map (view s) (butlast ?P) @ [(isText ?l, v)]"
        using map_update_last[OF dP Pne, of "\<lambda>c. (isText c, v)" "view s"] by simp
      finally show ?thesis using lt by simp
    qed
    have pe: "Paragraph_content (paragraphs ?se p) = ck # ys" using pp by simp
    have sub: "set ys \<subseteq> set (Paragraph_content (paragraphs ?se p))" using pe by auto
    note F = splitInv_copyAll[OF Ie sub]
    have lin: "?l \<in> set ?P" using Pne by simp
    have ys_e: "map (view ?se) ys = map (view s) ys"
    proof -
      have "Content_text s c \<noteq> ?z" if "c \<in> set ys" for c
      proof -
        have "c \<in> set (Paragraph_content (paragraphs s p))" using that pp by simp
        then have "Content_text s ?l \<noteq> Content_text s c"
          using D(5) lin by (intro distinct_map_disjoint)
        then show ?thesis by simp
      qed
      then show ?thesis by (simp add: view_def)
    qed
    have vf: "paragraphView ?sf pre = map (view s) (butlast ?P) @ [(True, v)] @ map (view s) ys"
      using F(2) ve ys_e by simp
    have cont: "p \<in> set (content ?sf)" using F(5) pin by simp
    have res: "Paragraph_combineWith pre p s =
        Inr (Some (Point (Content_text (?sf\<lparr>content := remove (content ?sf) p\<rparr>) ?l)
              (if trim (Content_content s ?l) = [] then 0
               else int (length (Content_content s ?l)))),
             ?sf\<lparr>content := remove (content ?sf) p\<rparr>)"
      unfolding Paragraph_combineWith_def pp
      using ne Pne loop cont
      by (simp add: Let_def Paragraph_remove_def Model_removeContent_def)
    have bl: "map snd (map (view s) (butlast ?P)) = map snd (butlast V)"
      using V(1) by (simp add: paragraphView_def map_butlast)
    have "paragraphTexts (?sf\<lparr>content := remove (content ?sf) p\<rparr>) pre
        = map snd (butlast V) @ [v] @ map (Content_content s) ys"
      using vf bl by (simp add: pts paragraphView_def view_def comp_def)
    then show ?thesis using res True unfolding v_def by auto
  next
    case False
    let ?sf = "copyAll pre (ck # ys) s"
    have loop: "combineWith_loop pre ?l True (ck # ys) s = ?sf"
      using False by (simp add: combineWith_loop_copyAll copyAdd_def)
    have sub: "set (ck # ys) \<subseteq> set (Paragraph_content (paragraphs s p))" using pp by auto
    note F = splitInv_copyAll[OF I sub]
    have vf: "paragraphView ?sf pre = V @ map (view s) (ck # ys)"
      using F(2) V(1) by simp
    have cont: "p \<in> set (content ?sf)" using F(5) pin by simp
    have res: "Paragraph_combineWith pre p s =
        Inr (Some (Point (Content_text (?sf\<lparr>content := remove (content ?sf) p\<rparr>) ?l)
              (if trim (Content_content s ?l) = [] then 0
               else int (length (Content_content s ?l)))),
             ?sf\<lparr>content := remove (content ?sf) p\<rparr>)"
      unfolding Paragraph_combineWith_def pp
      using ne Pne loop cont
      by (simp add: Let_def Paragraph_remove_def Model_removeContent_def)
    have "paragraphTexts (?sf\<lparr>content := remove (content ?sf) p\<rparr>) pre
        = map snd V @ map (Content_content s) (ck # ys)"
      using vf by (simp add: pts paragraphView_def view_def comp_def)
    then show ?thesis using res False by auto
  qed
qed

lemma new_Paragraph_obs_point:
  "Content_text (snd (new_Paragraph s)) c = Content_text s c"
  "Content_content (snd (new_Paragraph s)) c = Content_content s c"
  "parentIs (snd (new_Paragraph s)) q c = parentIs s q c"
  "view (snd (new_Paragraph s)) c = view s c"
  by (cases c; simp add: Content_text_def Content_content_def parentIs_def view_def)+

lemma new_Paragraph_obs [simp]:
  "Content_text (snd (new_Paragraph s)) = Content_text s"
  "Content_content (snd (new_Paragraph s)) = Content_content s"
  "parentIs (snd (new_Paragraph s)) q = parentIs s q"
  "view (snd (new_Paragraph s)) = view s"
  by (rule ext, simp add: new_Paragraph_obs_point)+

lemma appendView_last [simp]: "fst (last (appendView V v))"
  by (simp add: appendView_def)

lemma splitThenCombine_texts:
  assumes wf: "wellFormed s" and pin: "p \<in> set (content s)" and own: "ownsContent s p"
    and cs: "Paragraph_content (paragraphs s p) = xs @ ck # ys"
    and ft: "Content_text s ck = ft"
    and tk: "tk = Content_content s ck"
    and b: "b = substring tk off (int (length tk))"
    and b': "b' = (if b = [] then '' '' else b)"
    and V: "V = appendView (map (view s) xs) (substring tk 0 off)"
  shows "\<exists>s'. splitThenCombine p ft off s = Inr (nextParagraph s, s') \<and>
      paragraphTexts s' (nextParagraph s) =
        (if isText ck
         then map snd (butlast V) @
              [if trim (snd (last V)) \<noteq> [] then snd (last V) @ b' else b'] @
              map (Content_content s) ys
         else map snd V @ b' # map (Content_content s) ys)"
proof -
  let ?pre = "nextParagraph s"
  let ?s1 = "snd (new_Paragraph s)"
  let ?s2 = "?s1\<lparr>content := insertBefore (content s) ?pre p\<rparr>"
  have inv: "storeInvariant {} s" using wf by (simp add: wellFormed_def)
  have plt: "p < ?pre" using inv pin by (rule invD1)
  have ins: "Model_insertParagraphBefore ?pre p ?s1 = Inr ?s2"
    using pin by (simp add: Model_insertParagraphBefore_def)
  have inv1: "storeInvariant {?pre} ?s1" using inv_new_Paragraph[OF inv] by simp
  have inv2: "storeInvariant {?pre} ?s2"
    using inv1
  proof (rule inv_content_update)
    show "\<forall>q \<in> set (insertBefore (content s) ?pre p). q < nextParagraph ?s1"
      using pin invD1[OF inv] by (auto simp: set_insertBefore less_Suc_eq)
  qed
  have I2: "splitInv ?s2 ?pre p"
    unfolding splitInv_def using inv2 plt own cs
    by (auto simp: ownsContent_def)
  have cs2: "Paragraph_content (paragraphs ?s2 p) = xs @ ck # ys" using cs plt by simp
  have e2: "Paragraph_content (paragraphs ?s2 ?pre) = []" by simp
  have ft2: "Content_text ?s2 ck = ft" using ft by simp
  have tk2: "tk = Content_content ?s2 ck" using tk by simp
  from Paragraph_splitTo_effect[OF I2 cs2 ft2 e2 tk2 b]
  obtain pt s3 where
    sp: "Paragraph_splitTo p ?pre ft off ?s2 = Inr (pt, s3)"
    and I3: "splitInv s3 ?pre p"
    and v3: "paragraphView s3 ?pre = V"
    and p3: "Paragraph_content (paragraphs s3 p) = ck # ys"
    and c3: "Content_content s3 ck = b'"
    and y3: "\<forall>c \<in> set ys. Content_content s3 c = Content_content s c"
    and d3: "content s3 = content ?s2"
    using b' V by auto
  have pin3: "p \<in> set (content s3)" using d3 pin by (simp add: set_insertBefore)
  have Vne: "V \<noteq> []" and Vl: "fst (last V)" using V by simp_all
  from Paragraph_combineWith_effect[OF I3 p3 v3 Vne Vl pin3 c3[symmetric]]
  obtain pt' s4 where
    cw: "Paragraph_combineWith ?pre p s3 = Inr (pt', s4)"
    and t4: "paragraphTexts s4 ?pre =
        (if isText ck
         then map snd (butlast V) @
              [if trim (snd (last V)) \<noteq> [] then snd (last V) @ b' else b'] @
              map (Content_content s3) ys
         else map snd V @ map (Content_content s3) (ck # ys))"
    by blast
  have ys: "map (Content_content s3) ys = map (Content_content s) ys" using y3 by simp
  have "splitThenCombine p ft off s = Inr (?pre, s4)"
    using ins sp cw by (simp add: splitThenCombine_def split_beta)
  moreover have "paragraphTexts s4 ?pre =
        (if isText ck
         then map snd (butlast V) @
              [if trim (snd (last V)) \<noteq> [] then snd (last V) @ b' else b'] @
              map (Content_content s) ys
         else map snd V @ b' # map (Content_content s) ys)"
    using t4 ys c3 by simp
  ultimately show ?thesis by blast
qed

lemma concat_map_butlast:
  "xs \<noteq> [] \<Longrightarrow> concat (map f (butlast xs)) @ f (last xs) = concat (map f xs)"
  by (induction xs) auto

lemma trim_space [simp]: "trim '' '' = []"
  by (simp add: trim_def isWhiteSpace_def)

lemma trim_Nil [simp]: "trim [] = []"
  by (simp add: trim_def)

text \<open>C3, as amended. Let \<open>p\<close> be a paragraph of a well-formed document that owns its
  content, \<open>c\<close> a content node of \<open>p\<close> with text run \<open>fromText\<close>, and
  \<open>0 \<le> fromOffset < length\<close> of that run. Let \<open>L\<close> be the part of the run before the
  offset, preceded by the text of the plain text run that stands immediately before \<open>c\<close> in
  \<open>p\<close> when there is one. If \<open>c\<close> is a plain text run and \<open>L\<close> is empty or has a character
  that is not white space, or \<open>c\<close> is a link and \<open>L\<close> is not empty, then splitting \<open>p\<close> at
  that point into a fresh paragraph and combining the fresh paragraph with \<open>p\<close> at once
  returns, and the text of the fresh paragraph (the strings of its content nodes, joined)
  is the text that \<open>p\<close> had.\<close>

theorem split_then_combine:
  assumes "wellFormed s" and "p \<in> set (content s)" and "ownsContent s p"
    and "Paragraph_content (paragraphs s p) = xs @ c # ys"
    and "Content_text s c = fromText"
    and "0 \<le> fromOffset" and "fromOffset < Text_length s fromText"
    and "L = precedingPlainText s xs @ substring (Text_content (texts s fromText)) 0 fromOffset"
    and "if isText c then L = [] \<or> trim L \<noteq> [] else L \<noteq> []"
  shows "\<exists>s'. splitThenCombine p fromText fromOffset s = Inr (nextParagraph s, s') \<and>
           paragraphText s' (nextParagraph s) = paragraphText s p"
proof -
  define tk where "tk = Content_content s c"
  define a where "a = substring tk 0 fromOffset"
  define b where "b = substring tk fromOffset (int (length tk))"
  define V where "V = appendView (map (view s) xs) a"
  have tk': "tk = Text_content (texts s fromText)"
    using assms(5) by (simp add: tk_def Content_content_def)
  have len: "fromOffset < int (length tk)" using assms(7) by (simp add: tk' Text_length_def)
  have a: "a = take (nat fromOffset) tk" using assms(6) by (simp add: a_def substring_take)
  have b: "b = drop (nat fromOffset) tk" using assms(6) len by (simp add: b_def substring_drop)
  have ab: "a @ b = tk" by (simp add: a b)
  have bne: "b \<noteq> []" using len assms(6) by (simp add: b)
  have L: "L = precedingPlainText s xs @ a" using assms(8) by (simp add: a_def tk')
  from splitThenCombine_texts[OF assms(1-5) tk_def b_def refl V_def[unfolded a_def]]
  obtain s' where r: "splitThenCombine p fromText fromOffset s = Inr (nextParagraph s, s')"
    and t: "paragraphTexts s' (nextParagraph s) =
        (if isText c
         then map snd (butlast V) @
              [if trim (snd (last V)) \<noteq> [] then snd (last V) @ b else b] @
              map (Content_content s) ys
         else map snd V @ b # map (Content_content s) ys)"
    using bne by auto
  have orig: "paragraphText s p
      = concat (map (Content_content s) xs) @ a @ b @ concat (map (Content_content s) ys)"
    using assms(4) by (simp add: paragraphText_def paragraphTexts_def tk_def[symmetric] ab)
  have ms: "snd \<circ> view s = Content_content s"
    by (rule ext) (simp add: view_def)
  have "paragraphText s' (nextParagraph s) = paragraphText s p"
  proof (cases "xs \<noteq> [] \<and> isText (last xs)")
    case True
    then have V1: "V = butlast (map (view s) xs) @ [(True, Content_content s (last xs) @ a)]"
      by (simp add: V_def appendView_def last_map view_def)
    have L1: "L = Content_content s (last xs) @ a" using True L by (simp add: precedingPlainText_def)
    have c1: "concat (map (Content_content s) (butlast xs)) @ Content_content s (last xs)
        = concat (map (Content_content s) xs)"
      using True by (simp add: concat_map_butlast)
    have bl: "map snd (butlast (map (view s) xs)) = map (Content_content s) (butlast xs)"
      by (simp add: map_butlast[symmetric] view_def comp_def)
    show ?thesis
    proof (cases "isText c")
      case True
      have "trim L \<noteq> [] \<or> L = []" using assms(9) True by auto
      then show ?thesis
        using t True V1 L1 orig bl c1[symmetric]
        by (auto simp: paragraphText_def)
    next
      case False
      then show ?thesis
        using t V1 orig bl c1[symmetric] by (simp add: paragraphText_def)
    qed
  next
    case False
    then have V2: "V = map (view s) xs @ [(True, if a = [] then '' '' else a)]"
      unfolding V_def appendView_def by (auto simp: last_map view_def)
    have L2: "L = a" using False L by (auto simp: precedingPlainText_def)
    show ?thesis
    proof (cases "isText c")
      case True
      have "trim a \<noteq> [] \<or> a = []" using assms(9) True L2 by auto
      then show ?thesis
        using t True V2 orig ms by (auto simp: paragraphText_def)
    next
      case False
      have "a \<noteq> []" using assms(9) False L2 by auto
      then show ?thesis
        using t False V2 orig ms by (simp add: paragraphText_def)
    qed
  qed
  with r show ?thesis by blast
qed

text \<open>What the parsed example \<open>mixed\<close> holds.\<close>

lemma mixed_facts:
  "wellFormed (parsed mixed)"
  "ownsContent (parsed mixed) (Suc 0)"
  "content (parsed mixed) = [0, Suc 0]"
  "nextParagraph (parsed mixed) = 2"
  "Paragraph_content (paragraphs (parsed mixed) (Suc 0))
     = [TextRef (Suc 0), LinkRef 0, TextRef 3, LinkRef (Suc 0), LinkRef 2]"
  "paragraphText (parsed mixed) (Suc 0) = ''ab cd efghij''"
  "Text_content (texts (parsed mixed) 3) = '' ef''"
  "Content_content (parsed mixed) (LinkRef 0) = ''cd''"
  by (simp_all add: wellFormed_def storeInvariant_def ownsContent_def parentIs_def model_defs
        mixed_def paragraphText_def)

theorem split_then_combine_witness:
  "wellFormed (parsed mixed) \<and> ownsContent (parsed mixed) 1 \<and>
   Paragraph_content (paragraphs (parsed mixed) 1)
     = [TextRef 1, LinkRef 0] @ TextRef 3 # [LinkRef 1, LinkRef 2] \<and>
   (\<exists>s'. splitThenCombine 1 3 2 (parsed mixed) = Inr (2, s') \<and>
          paragraphText s' 2 = ''ab cd efghij'')"
  using split_then_combine[of "parsed mixed" 1 "[TextRef 1, LinkRef 0]" "TextRef 3"
      "[LinkRef 1, LinkRef 2]" 3 2 "'' e''"]
  by (simp add: mixed_facts precedingPlainText_def isText_def Content_text_def Text_length_def
      substring_def trim_def isWhiteSpace_def Let_def)

theorem split_then_combine_counterexample:
  "wellFormed (parsed abc) \<and> ownsContent (parsed abc) 0 \<and>
   Paragraph_content (paragraphs (parsed abc) 0) = [TextRef 0] \<and>
   paragraphText (parsed abc) 0 = ''abc'' \<and>
   textAfterSplitThenCombine 0 0 3 (parsed abc) = Inr ''abc '' \<and>
   paragraphText (parsed blank_ab) 0 = '' ab'' \<and>
   textAfterSplitThenCombine 0 0 1 (parsed blank_ab) = Inr ''ab'' \<and>
   paragraphText (parsed link_ab) 0 = ''ab'' \<and>
   textAfterSplitThenCombine 0 0 0 (parsed link_ab) = Inr '' ab''"
  by (simp add: wellFormed_def storeInvariant_def ownsContent_def parentIs_def model_defs
        paragraphText_def textAfterSplitThenCombine_def splitThenCombine_def link_ab_def blank_ab_def)

subsection \<open>Backspace at the start of a paragraph\<close>

lemma previousOfMapped_Some:
  "previousOfMapped xs f i = Some x \<Longrightarrow>
     \<exists>A y B. xs = A @ x # y # B \<and> f y = i \<and> f x \<noteq> i \<and> i \<notin> f ` set A"
proof (induction xs f i rule: previousOfMapped.induct)
  case (3 x' y ys f item)
  show ?case
  proof (cases "f x' = item")
    case True
    with 3 show ?thesis by simp
  next
    case nx: False
    show ?thesis
    proof (cases "f y = item")
      case True
      with nx 3(2) have "x = x'" by simp
      with True nx show ?thesis by (intro exI[of _ "[]"] exI[of _ y] exI[of _ ys]) simp
    next
      case False
      with nx 3(2) have "previousOfMapped (y # ys) f item = Some x" by simp
      from 3(1)[OF nx False this] obtain A y' B where
        "y # ys = A @ x # y' # B" "f y' = item" "f x \<noteq> item" "item \<notin> f ` set A" by blast
      with nx show ?thesis
        by (intro exI[of _ "x' # A"] exI[of _ y'] exI[of _ B]) simp
    qed
  qed
qed simp_all

lemma previousOfMapped_None_hd:
  "previousOfMapped xs f i = None \<Longrightarrow> i \<in> f ` set xs \<Longrightarrow> f (hd xs) = i"
  by (induction xs f i rule: previousOfMapped.induct) (auto split: if_splits)

lemma indexOfMapped_None: "indexOfMapped xs f i = None \<longleftrightarrow> i \<notin> f ` set xs"
  by (induction xs) auto

lemma remove_mid: "q \<notin> set A \<Longrightarrow> q \<noteq> p \<Longrightarrow> remove (A @ p # q # B) q = A @ p # B"
  by (induction A) (auto simp: remove_def)

lemma indicesFromRoot_loop_None:
  "indicesFromRoot_loop s ps i node = None \<Longrightarrow> p \<in> set ps \<Longrightarrow> indicesInParagraph s p node = None"
  by (induction ps arbitrary: i) (auto split: option.splits)

lemma createPoint_document:
  assumes "q \<in> set (content s)" and "c \<in> set (Paragraph_content (paragraphs s q))"
    and "Content_text s c = t"
  shows "createPoint s (t, off) = Inr (Point t off)"
proof -
  have ip: "indicesInParagraph s q t \<noteq> None"
    using assms(2,3) by (auto simp: indicesInParagraph_def indexOfMapped_None split: option.splits)
  have "indicesFromRoot_loop s (content s) 0 t \<noteq> None"
  proof
    assume "indicesFromRoot_loop s (content s) 0 t = None"
    from indicesFromRoot_loop_None[OF this assms(1)] ip show False by simp
  qed
  then have "createPoint s (t, off) \<noteq> Inl NotInDocument"
    by (auto simp: createPoint_def DomPath_indicesFromRoot_def andThen_eq_Inl Model_findTextForPath_def
        split: option.splits dest!: indicesFromRoot_loop_Some Paragraph_findTextForPath_indices)
  then show ?thesis using createPoint_cases[of s t off] by simp
qed

lemma containingParagraph_owned:
  assumes "storeInvariant Q s" and "allocatedContent s d" and "parentIs s r d"
  shows "Text_containingParagraph s (Content_text s d) = r"
    and "Text_getPrecedingText s (Content_text s d) = Paragraph_getPrecedingText s r (Content_text s d)"
  using assms
  by (cases d; auto simp: Text_containingParagraph_def Content_text_def parentIs_def
        allocatedContent_def Text_getPrecedingText_def Link_getPrecedingText_def
        dest: invD5)+

lemma owns_disjoint:
  assumes inv: "storeInvariant Q s" and "r1 \<noteq> r2"
    and "r1 < nextParagraph s" and "r2 < nextParagraph s"
    and "ownsContent s r1" and "ownsContent s r2"
  shows "distinct (map (Content_text s)
       (Paragraph_content (paragraphs s r1) @ Paragraph_content (paragraphs s r2)))"
proof -
  have "Content_text s c \<noteq> Content_text s d"
    if c: "c \<in> set (Paragraph_content (paragraphs s r1))"
      and d: "d \<in> set (Paragraph_content (paragraphs s r2))" for c d
  proof
    assume eq: "Content_text s c = Content_text s d"
    have "Text_containingParagraph s (Content_text s c) = r1"
      using inv invD3[OF inv assms(3) c] assms(5) c
      by (intro containingParagraph_owned(1)) (auto simp: ownsContent_def)
    moreover have "Text_containingParagraph s (Content_text s d) = r2"
      using inv invD3[OF inv assms(4) d] assms(6) d
      by (intro containingParagraph_owned(1)) (auto simp: ownsContent_def)
    ultimately show False using eq assms(2) by simp
  qed
  then show ?thesis using assms(5,6) by (auto simp: ownsContent_def)
qed


lemma copyAll_domSelection: "domSelection (copyAll p cs s) = domSelection s"
  by (induction cs arbitrary: s) (simp_all add: copyAdd_def store_defs split: Content.splits)

lemma combineWith_loop_merge:
  assumes I: "splitInv s pre p"
    and pp: "Paragraph_content (paragraphs s p) = ck # ys"
    and Pne: "Paragraph_content (paragraphs s pre) \<noteq> []"
    and l: "l = last (Paragraph_content (paragraphs s pre))"
    and s1: "s1 = combineWith_loop pre l True (ck # ys) s"
  shows "paragraphTexts s1 pre =
        (if isText l \<and> isText ck
         then butlast (paragraphTexts s pre) @
              [if trim (Content_content s l) \<noteq> [] then Content_content s l @ Content_content s ck
               else Content_content s ck] @
              map (Content_content s) ys
         else paragraphTexts s pre @ map (Content_content s) (ck # ys))"
    and "content s1 = content s"
    and "domSelection s1 = domSelection s"
    and "\<And>r. r \<noteq> pre \<Longrightarrow> Paragraph_content (paragraphs s1 r) = Paragraph_content (paragraphs s r)"
    and "\<And>d. allocatedContent s d \<Longrightarrow> Content_text s d \<noteq> Content_text s l
           \<Longrightarrow> Content_content s1 d = Content_content s d"
    and "\<And>d. allocatedContent s d \<Longrightarrow> Content_text s1 d = Content_text s d"
proof -
  note D = splitInvD[OF I]
  let ?P = "Paragraph_content (paragraphs s pre)"
  define cc where "cc = Content_content s ck"
  have ckin: "ck \<in> set (Paragraph_content (paragraphs s p))" using pp by simp
  have ccne: "cc \<noteq> []"
  proof -
    have al: "allocatedContent s ck" using D(7) ckin by simp
    have "Content_text s ck < nextText s" using keeps_Content(4)[OF keeps_refl D(1) al] .
    then show ?thesis using D(1) by (auto simp: cc_def Content_content_def dest: invD6)
  qed
  have pts: "paragraphTexts s' pre = map snd (paragraphView s' pre)" for s'
    by (simp add: paragraphTexts_def paragraphView_def view_def comp_def)
  have all: "paragraphTexts s1 pre =
        (if isText l \<and> isText ck
         then butlast (paragraphTexts s pre) @
              [if trim (Content_content s l) \<noteq> [] then Content_content s l @ cc else cc] @
              map (Content_content s) ys
         else paragraphTexts s pre @ map (Content_content s) (ck # ys)) \<and>
      content s1 = content s \<and> domSelection s1 = domSelection s \<and>
      (\<forall>r. r \<noteq> pre \<longrightarrow> Paragraph_content (paragraphs s1 r) = Paragraph_content (paragraphs s r)) \<and>
      (\<forall>d. allocatedContent s d \<longrightarrow> Content_text s d \<noteq> Content_text s l
           \<longrightarrow> Content_content s1 d = Content_content s d) \<and>
      (\<forall>d. allocatedContent s d \<longrightarrow> Content_text s1 d = Content_text s d)"
  proof (cases "isText l \<and> isText ck")
    case True
    let ?z = "Content_text s l"
    define v where "v = (if trim (Content_content s l) \<noteq> [] then Content_content s l @ cc else cc)"
    let ?se = "Text_set_content ?z v s"
    let ?sf = "copyAll pre ys ?se"
    have vne: "v \<noteq> []" using ccne by (simp add: v_def)
    have loop: "s1 = ?sf"
      unfolding s1 using True
      by (simp add: combineWith_loop_copyAll Text_append_def Content_set_content_def
          Content_content_def v_def cc_def)
    have Ie: "splitInv ?se pre p" using I by (rule splitInv_Text_set_content)
    note E = splitInvD[OF Ie]
    have dP: "distinct (map (Content_text s) ?P)" using D(5) by simp
    have ve: "paragraphView ?se pre = map (view s) (butlast ?P) @ [(True, v)]"
    proof -
      have "paragraphView ?se pre =
          map (\<lambda>c. if Content_text s c = Content_text s (last ?P) then (isText c, v) else view s c) ?P"
        using vne by (simp add: paragraphView_def view_def l)
      also have "\<dots> = map (view s) (butlast ?P) @ [(isText (last ?P), v)]"
        using map_update_last[OF dP Pne, of "\<lambda>c. (isText c, v)" "view s"] by simp
      finally show ?thesis using True l by simp
    qed
    have pe: "Paragraph_content (paragraphs ?se p) = ck # ys" using pp by simp
    have sub: "set ys \<subseteq> set (Paragraph_content (paragraphs ?se p))" using pe by auto
    note F = splitInv_copyAll[OF Ie sub]
    have lin: "l \<in> set ?P" using Pne l by simp
    have ys_e: "map (view ?se) ys = map (view s) ys"
    proof -
      have "Content_text s c \<noteq> ?z" if "c \<in> set ys" for c
      proof -
        have "c \<in> set (Paragraph_content (paragraphs s p))" using that pp by simp
        then have "Content_text s l \<noteq> Content_text s c"
          using D(5) lin by (intro distinct_map_disjoint)
        then show ?thesis by simp
      qed
      then show ?thesis by (simp add: view_def)
    qed
    have vf: "paragraphView ?sf pre = map (view s) (butlast ?P) @ [(True, v)] @ map (view s) ys"
      using F(2) ve ys_e by simp
    have bl: "map snd (map (view s) (butlast ?P)) = butlast (paragraphTexts s pre)"
      by (simp add: paragraphTexts_def map_butlast view_def comp_def)
    have t1: "paragraphTexts ?sf pre
        = butlast (paragraphTexts s pre) @ [v] @ map (Content_content s) ys"
      using vf bl by (simp add: pts view_def comp_def)
    have k: "keeps ?se ?sf" by (rule keeps_copyAll)
    have t2: "content ?sf = content s" using F(5) by simp
    have t3: "domSelection ?sf = domSelection s"
      by (simp add: copyAll_domSelection Text_set_content_def)
    have t4: "Paragraph_content (paragraphs ?sf r) = Paragraph_content (paragraphs s r)"
      if "r \<noteq> pre" for r
      using that by (simp add: copyAll_paragraphs_other)
    have t5: "Content_content ?sf d = Content_content s d"
      if "allocatedContent s d" "Content_text s d \<noteq> Content_text s l" for d
    proof -
      have "allocatedContent ?se d" using that(1) by simp
      from keeps_Content(2)[OF k E(1) this] that(2) show ?thesis by simp
    qed
    have t6: "Content_text ?sf d = Content_text s d" if "allocatedContent s d" for d
    proof -
      have "allocatedContent ?se d" using that(1) by simp
      from keeps_Content(1)[OF k E(1) this] show ?thesis by simp
    qed
    show ?thesis
      unfolding loop if_P[OF True] using t1 t2 t3 t4 t5 t6 by (simp add: v_def)
  next
    case False
    let ?sf = "copyAll pre (ck # ys) s"
    have loop: "s1 = ?sf"
      unfolding s1 using False by (auto simp: combineWith_loop_copyAll copyAdd_def)
    have sub: "set (ck # ys) \<subseteq> set (Paragraph_content (paragraphs s p))" using pp by auto
    note F = splitInv_copyAll[OF I sub]
    have vf: "paragraphView ?sf pre = paragraphView s pre @ map (view s) (ck # ys)"
      using F(2) by simp
    have t1: "paragraphTexts ?sf pre = paragraphTexts s pre @ map (Content_content s) (ck # ys)"
      unfolding pts vf by (simp add: view_def comp_def)
    have k: "keeps s ?sf" by (rule keeps_copyAll)
    have t2: "content ?sf = content s" using F(5) by simp
    have t3: "domSelection ?sf = domSelection s" by (rule copyAll_domSelection)
    have t4: "Paragraph_content (paragraphs ?sf r) = Paragraph_content (paragraphs s r)"
      if "r \<noteq> pre" for r
      using that by (rule copyAll_paragraphs_other)
    have t5: "Content_content ?sf d = Content_content s d" if "allocatedContent s d" for d
      using keeps_Content(2)[OF k D(1) that] .
    have t6: "Content_text ?sf d = Content_text s d" if "allocatedContent s d" for d
      using keeps_Content(1)[OF k D(1) that] .
    show ?thesis
      unfolding loop if_not_P[OF False] using t1 t2 t3 t4 t5 t6 by simp
  qed
  then show "paragraphTexts s1 pre =
        (if isText l \<and> isText ck
         then butlast (paragraphTexts s pre) @
              [if trim (Content_content s l) \<noteq> [] then Content_content s l @ Content_content s ck
               else Content_content s ck] @
              map (Content_content s) ys
         else paragraphTexts s pre @ map (Content_content s) (ck # ys))"
    and "content s1 = content s"
    and "domSelection s1 = domSelection s"
    and "\<And>r. r \<noteq> pre \<Longrightarrow> Paragraph_content (paragraphs s1 r) = Paragraph_content (paragraphs s r)"
    and "\<And>d. allocatedContent s d \<Longrightarrow> Content_text s d \<noteq> Content_text s l
           \<Longrightarrow> Content_content s1 d = Content_content s d"
    and "\<And>d. allocatedContent s d \<Longrightarrow> Content_text s1 d = Content_text s d"
    by (simp_all add: cc_def)
qed


lemma paragraphTexts_frame [simp]:
  "paragraphTexts (s\<lparr>content := ps\<rparr>) r = paragraphTexts s r"
  "paragraphTexts (s\<lparr>domSelection := d\<rparr>) r = paragraphTexts s r"
  by (simp_all add: paragraphTexts_def Content_content_def Content_text_def split: Content.splits)

lemma removePreviousChar_neighbours:
  assumes wf: "wellFormed s"
    and own: "\<forall>r \<in> set (content s). ownsContent s r"
    and qin: "q \<in> set (content s)"
    and cin: "c \<in> set (Paragraph_content (paragraphs s q))"
    and ct: "Content_text s c = t"
    and prev: "Text_getPrecedingText s t = Inr (Some previous)"
    and diff: "Text_containingParagraph s previous \<noteq> Text_containingParagraph s t"
  shows "\<exists>before p after.
      content s = before @ p # q # after \<and> p \<noteq> q \<and> q \<notin> set before \<and>
      Paragraph_content (paragraphs s p) \<noteq> [] \<and>
      previous = Content_text s (last (Paragraph_content (paragraphs s p))) \<and>
      t = Content_text s (hd (Paragraph_content (paragraphs s q))) \<and>
      Text_containingParagraph s previous = p \<and> Text_containingParagraph s t = q"
proof -
  let ?Q = "Paragraph_content (paragraphs s q)"
  have inv: "storeInvariant {} s" using wf by (simp add: wellFormed_def)
  have qlt: "q < nextParagraph s" using inv qin by (rule invD1)
  have ownq: "ownsContent s q" using own qin by simp
  have alc: "allocatedContent s d" if "d \<in> set ?Q" for d using inv qlt that by (rule invD3)
  have parq: "parentIs s q d" if "d \<in> set ?Q" for d using ownq that by (simp add: ownsContent_def)
  have cq: "Text_containingParagraph s (Content_text s d) = q" if "d \<in> set ?Q" for d
    using inv alc[OF that] parq[OF that] by (rule containingParagraph_owned(1))
  have cpt: "Text_containingParagraph s t = q" using cq[OF cin] ct by simp
  have gp: "Paragraph_getPrecedingText s q t = Inr (Some previous)"
    using containingParagraph_owned(2)[OF inv alc[OF cin] parq[OF cin]] ct prev by simp
  have none: "previousOfMapped ?Q (Content_text s) t = None"
  proof (cases "previousOfMapped ?Q (Content_text s) t")
    case (Some x)
    from previousOfMapped_Some[OF Some] have xin: "x \<in> set ?Q" by auto
    from gp Some have "previous = Content_text s x" by (simp add: Paragraph_getPrecedingText_def)
    with cq[OF xin] cpt diff show ?thesis by simp
  qed simp
  then have mp: "Model_getPrecedingText s q = Inr (Some previous)"
    using gp by (simp add: Paragraph_getPrecedingText_def)
  have tin: "t \<in> Content_text s ` set ?Q" using cin ct by auto
  have hd: "t = Content_text s (hd ?Q)" using previousOfMapped_None_hd[OF none tin] by simp
  obtain p where po: "previousOf (content s) q = Some p"
    using mp by (cases "previousOf (content s) q") (auto simp: Model_getPrecedingText_def)
  then have lt: "Paragraph_lastText s p = Inr previous"
    using mp by (cases "Paragraph_lastText s p") (auto simp: Model_getPrecedingText_def)
  then have Pne: "Paragraph_content (paragraphs s p) \<noteq> []"
    and pl: "previous = Content_text s (last (Paragraph_content (paragraphs s p)))"
    by (auto simp: Paragraph_lastText_def Paragraph_lastContent_def Let_def split: if_splits)
  from previousOfMapped_Some[OF po[unfolded previousOf_def]] obtain A y B where
    cs: "content s = A @ p # y # B" and y: "y = q" and pq: "p \<noteq> q" and qA: "q \<notin> set A"
    by auto
  have pin: "p \<in> set (content s)" using cs by simp
  have plt: "p < nextParagraph s" using inv pin by (rule invD1)
  have ownp: "ownsContent s p" using own pin by simp
  have lin: "last (Paragraph_content (paragraphs s p)) \<in> set (Paragraph_content (paragraphs s p))"
    using Pne by simp
  have "Text_containingParagraph s previous = p"
    unfolding pl using inv invD3[OF inv plt lin] ownp lin
    by (intro containingParagraph_owned(1)) (auto simp: ownsContent_def)
  with cs y pq qA Pne pl hd cpt show ?thesis by blast
qed

text \<open>C5. Take a well-formed document whose paragraphs are different objects that own
  their content, and the selection collapsed at offset 0 of the text run \<open>t\<close> of a content
  node of the paragraph \<open>q\<close>, where the run that precedes \<open>t\<close> is in another paragraph.
  Then that run, \<open>previous\<close>, is the run of the last content node of the paragraph \<open>p\<close>
  that stands immediately before \<open>q\<close>, and \<open>t\<close> is the run of the first node of \<open>q\<close>.
  \<^verbatim>\<open>removePreviousChar\<close> returns; \<open>q\<close> has left the document and every other paragraph is
  where it was; \<open>p\<close> holds its strings followed by those of \<open>q\<close>, except that when the
  last node of \<open>p\<close> and the first node of \<open>q\<close> are both plain runs they are one run,
  holding the two strings joined, or the string of \<open>t\<close> alone when that of \<open>previous\<close>
  trims to the empty string; the strings of the other paragraphs are unchanged; and the
  cursor is in \<open>previous\<close>, at the length that run had, or at 0 when its string trims to
  the empty string. No character is removed but those of a blank last run of \<open>p\<close> in that
  last case. The witness is scenario D (the paragraphs \<^verbatim>\<open>abc\<close> and \<^verbatim>\<open>def\<close> become the
  one paragraph \<^verbatim>\<open>abcdef\<close> with the cursor at offset 3) and the document of a blank
  paragraph followed by \<^verbatim>\<open>def\<close>, which becomes the one paragraph \<^verbatim>\<open>def\<close> with the cursor at
  offset 0.\<close>

theorem removePreviousChar_merges:
  assumes wf: "wellFormed s"
    and own: "\<forall>r \<in> set (content s). ownsContent s r"
    and dist: "distinct (content s)"
    and qin: "q \<in> set (content s)"
    and cin: "c \<in> set (Paragraph_content (paragraphs s q))"
    and ct: "Content_text s c = t"
    and sel: "domSelection s = ((t, 0), (t, 0))"
    and prev: "Text_getPrecedingText s t = Inr (Some previous)"
    and diff: "Text_containingParagraph s previous \<noteq> Text_containingParagraph s t"
  shows "\<exists>before p after s'.
      content s = before @ p # q # after \<and>
      previous = Content_text s (last (Paragraph_content (paragraphs s p))) \<and>
      t = Content_text s (hd (Paragraph_content (paragraphs s q))) \<and>
      Model_removePreviousChar s = Inr s' \<and>
      content s' = before @ p # after \<and>
      paragraphTexts s' p =
        (if isText (last (Paragraph_content (paragraphs s p))) \<and>
            isText (hd (Paragraph_content (paragraphs s q)))
         then butlast (paragraphTexts s p) @
              [if trim (Text_content (texts s previous)) \<noteq> []
               then Text_content (texts s previous) @ Text_content (texts s t)
               else Text_content (texts s t)] @
              tl (paragraphTexts s q)
         else paragraphTexts s p @ paragraphTexts s q) \<and>
      (\<forall>r \<in> set before \<union> set after. paragraphTexts s' r = paragraphTexts s r) \<and>
      domSelection s' =
        ((previous, if trim (Text_content (texts s previous)) = [] then 0 else Text_length s previous),
         (previous, if trim (Text_content (texts s previous)) = [] then 0 else Text_length s previous))"
proof -
  from removePreviousChar_neighbours[OF wf own qin cin ct prev diff] obtain A p B where
    cs: "content s = A @ p # q # B" and pq: "p \<noteq> q" and qA: "q \<notin> set A"
    and Pne: "Paragraph_content (paragraphs s p) \<noteq> []"
    and pl: "previous = Content_text s (last (Paragraph_content (paragraphs s p)))"
    and hd: "t = Content_text s (hd (Paragraph_content (paragraphs s q)))"
    and cpp: "Text_containingParagraph s previous = p"
    and cpt: "Text_containingParagraph s t = q"
    by blast
  let ?P = "Paragraph_content (paragraphs s p)"
  let ?Q = "Paragraph_content (paragraphs s q)"
  let ?l = "last ?P"
  define k where "k = (if trim (Text_content (texts s previous)) = [] then 0 else Text_length s previous)"
  define s1 where "s1 = combineWith_loop p ?l True ?Q s"
  define s2 where "s2 = s1\<lparr>content := remove (content s) q\<rparr>"
  define s3 where "s3 = s2\<lparr>domSelection := ((previous, k), (previous, k))\<rparr>"
  have inv: "storeInvariant {} s" using wf by (simp add: wellFormed_def)
  have pin: "p \<in> set (content s)" using cs by simp
  have plt: "p < nextParagraph s" using inv pin by (rule invD1)
  have qlt: "q < nextParagraph s" using inv qin by (rule invD1)
  have ownp: "ownsContent s p" using own pin by simp
  have ownq: "ownsContent s q" using own qin by simp
  have Qne: "?Q \<noteq> []" using cin by auto
  then have pp: "?Q = hd ?Q # tl ?Q" by simp
  have I: "splitInv s p q"
    unfolding splitInv_def
    using storeInvariant_mono[OF inv, of "{p}"] plt qlt pq
      owns_disjoint[OF inv pq plt qlt ownp ownq] ownq
    by (auto simp: ownsContent_def)
  have s1': "s1 = combineWith_loop p ?l True (hd ?Q # tl ?Q) s"
    unfolding s1_def using pp by simp
  note M = combineWith_loop_merge[OF I pp Pne refl s1']
  have lin: "?l \<in> set ?P" using Pne by simp
  have all: "allocatedContent s ?l" using inv plt lin by (rule invD3)
  have lc: "Content_content s ?l = Text_content (texts s previous)"
    by (simp add: Content_content_def pl)
  have fc: "Content_content s (hd ?Q) = Text_content (texts s t)"
    by (simp add: Content_content_def hd)
  have pt: "Content_text s1 ?l = previous"
    using M(6)[OF all] by (simp add: pl)
  have pt2: "Content_text s2 ?l = previous"
    using pt by (simp add: s2_def)
  have cw: "Paragraph_combineWith p q s = Inr (Some (Point previous k), s2)"
    using pq Pne qin M(2) pt pt2
    by (simp add: Paragraph_combineWith_def Let_def Paragraph_remove_def Model_removeContent_def
        s1_def[symmetric] s2_def[symmetric] lc k_def Text_length_def)
  have cne: "content s \<noteq> []" using cs by simp
  have cpnt: "createPoint s (t, 0) = Inr (Point t 0)"
    using qin cin ct by (rule createPoint_document)
  have gs: "Model_getSelection s = Inr (Selection (Point t 0) (Point t 0) [], s)"
    using cne sel cpnt by (rule collapsed_getSelection)
  have res: "Model_removePreviousChar s = Inr s3"
    using gs prev cpp cpt pq cw
    by (simp add: Model_removePreviousChar_def Text_removePreviousChar_def Selection_isRange_def
        Model_moveCursor_def moveCursor_def s3_def)
  have c3: "content s3 = A @ p # B"
    using cs remove_mid[OF qA pq[symmetric]] by (simp add: s3_def s2_def)
  have t3: "paragraphTexts s3 r = paragraphTexts s1 r" for r
    by (simp add: s3_def s2_def)
  have tlq: "map (Content_content s) (tl ?Q) = tl (paragraphTexts s q)"
    by (simp add: paragraphTexts_def map_tl)
  have hq: "map (Content_content s) (hd ?Q # tl ?Q) = paragraphTexts s q"
    using pp by (simp add: paragraphTexts_def)
  have merged: "paragraphTexts s3 p =
        (if isText ?l \<and> isText (hd ?Q)
         then butlast (paragraphTexts s p) @
              [if trim (Text_content (texts s previous)) \<noteq> []
               then Text_content (texts s previous) @ Text_content (texts s t)
               else Text_content (texts s t)] @
              tl (paragraphTexts s q)
         else paragraphTexts s p @ paragraphTexts s q)"
    unfolding t3 M(1) lc fc tlq hq ..
  have others: "paragraphTexts s3 r = paragraphTexts s r" if r: "r \<in> set A \<union> set B" for r
  proof -
    have rp: "r \<noteq> p" and rin: "r \<in> set (content s)"
      using r dist cs by auto
    have rlt: "r < nextParagraph s" using inv rin by (rule invD1)
    have ownr: "ownsContent s r" using own rin by simp
    have dj: "distinct (map (Content_text s) (Paragraph_content (paragraphs s r) @ ?P))"
      using inv rp rlt plt ownr ownp by (rule owns_disjoint)
    have "Content_content s1 d = Content_content s d"
      if d: "d \<in> set (Paragraph_content (paragraphs s r))" for d
    proof -
      have "allocatedContent s d" using inv rlt d by (rule invD3)
      moreover have "Content_text s d \<noteq> Content_text s ?l"
        using dj d lin by (rule distinct_map_disjoint)
      ultimately show ?thesis by (rule M(5))
    qed
    then show ?thesis
      unfolding t3 by (simp add: paragraphTexts_def M(4)[OF rp])
  qed
  have d3: "domSelection s3 = ((previous, k), (previous, k))" by (simp add: s3_def)
  from cs pl hd res c3 merged others d3 show ?thesis
    unfolding k_def by blast
qed


text \<open>What the parsed examples hold.\<close>

lemma two_paragraph_facts:
  "wellFormed ((parsed abc_def)\<lparr>domSelection := ((1, 0), (1, 0))\<rparr>)"
  "\<forall>r \<in> set (content ((parsed abc_def)\<lparr>domSelection := ((1, 0), (1, 0))\<rparr>)).
     ownsContent ((parsed abc_def)\<lparr>domSelection := ((1, 0), (1, 0))\<rparr>) r"
  "wellFormed ((parsed blank_def)\<lparr>domSelection := ((1, 0), (1, 0))\<rparr>)"
  "\<forall>r \<in> set (content ((parsed blank_def)\<lparr>domSelection := ((1, 0), (1, 0))\<rparr>)).
     ownsContent ((parsed blank_def)\<lparr>domSelection := ((1, 0), (1, 0))\<rparr>) r"
  by (simp_all add: wellFormed_def storeInvariant_def ownsContent_def parentIs_def model_defs)

theorem removePreviousChar_merges_witness:
  "textsOf (Model_removePreviousChar ((parsed abc_def)\<lparr>domSelection := ((1, 0), (1, 0))\<rparr>))
     = Inr [[''abcdef'']] \<and>
   selectionOf (Model_removePreviousChar ((parsed abc_def)\<lparr>domSelection := ((1, 0), (1, 0))\<rparr>))
     = Inr ((0, 3), (0, 3)) \<and>
   textsOf (Model_removePreviousChar ((parsed blank_def)\<lparr>domSelection := ((1, 0), (1, 0))\<rparr>))
     = Inr [[''def'']] \<and>
   selectionOf (Model_removePreviousChar ((parsed blank_def)\<lparr>domSelection := ((1, 0), (1, 0))\<rparr>))
     = Inr ((0, 0), (0, 0))"
proof -
  have one: "textsOf (Model_removePreviousChar s) = Inr [v] \<and>
      selectionOf (Model_removePreviousChar s) = Inr ((0, k), (0, k))"
    if wf: "wellFormed s" and own: "\<forall>r \<in> set (content s). ownsContent s r"
      and cs: "content s = [0, 1]"
      and q: "Paragraph_content (paragraphs s 1) = [TextRef 1]"
      and p: "Paragraph_content (paragraphs s 0) = [TextRef 0]"
      and sel: "domSelection s = ((1, 0), (1, 0))"
      and prev: "Text_getPrecedingText s 1 = Inr (Some 0)"
      and diff: "Text_containingParagraph s 0 \<noteq> Text_containingParagraph s 1"
      and v: "v = [if trim (Text_content (texts s 0)) \<noteq> []
                   then Text_content (texts s 0) @ Text_content (texts s 1)
                   else Text_content (texts s 1)]"
      and k: "k = (if trim (Text_content (texts s 0)) = [] then 0 else Text_length s 0)"
    for s v k
  proof -
    have h: "distinct (content s)" "1 \<in> set (content s)"
      "TextRef 1 \<in> set (Paragraph_content (paragraphs s 1))" "Content_text s (TextRef 1) = 1"
      using cs q by (simp_all add: Content_text_def)
    from removePreviousChar_merges[OF wf own h sel prev diff] obtain A r B s' where
      c: "content s = A @ r # 1 # B"
      and r: "Model_removePreviousChar s = Inr s'"
      and c': "content s' = A @ r # B"
      and t: "paragraphTexts s' r =
        (if isText (last (Paragraph_content (paragraphs s r))) \<and>
            isText (hd (Paragraph_content (paragraphs s 1)))
         then butlast (paragraphTexts s r) @
              [if trim (Text_content (texts s 0)) \<noteq> []
               then Text_content (texts s 0) @ Text_content (texts s 1)
               else Text_content (texts s 1)] @
              tl (paragraphTexts s 1)
         else paragraphTexts s r @ paragraphTexts s 1)"
      and d: "domSelection s' =
        ((0, if trim (Text_content (texts s 0)) = [] then 0 else Text_length s 0),
         (0, if trim (Text_content (texts s 0)) = [] then 0 else Text_length s 0))"
      by blast
    have "length (content s) = 2" by (simp add: cs)
    then have AB: "A = []" "B = []" unfolding c by simp_all
    then have r0: "r = 0" using c cs by simp
    have "paragraphTexts s' 0 = v"
      using t q[simplified] unfolding r0 v
      by (simp add: p isText_def paragraphTexts_def Content_content_def Content_text_def)
    then show ?thesis
      using r c' d AB r0 k by (simp add: textsOf_def selectionOf_def documentTexts_def)
  qed
  have a: "content ((parsed abc_def)\<lparr>domSelection := ((1, 0), (1, 0))\<rparr>) = [0, 1]"
    "Paragraph_content (paragraphs ((parsed abc_def)\<lparr>domSelection := ((1, 0), (1, 0))\<rparr>) 1) = [TextRef 1]"
    "Paragraph_content (paragraphs ((parsed abc_def)\<lparr>domSelection := ((1, 0), (1, 0))\<rparr>) 0) = [TextRef 0]"
    "domSelection ((parsed abc_def)\<lparr>domSelection := ((1, 0), (1, 0))\<rparr>) = ((1, 0), (1, 0))"
    "Text_getPrecedingText ((parsed abc_def)\<lparr>domSelection := ((1, 0), (1, 0))\<rparr>) 1 = Inr (Some 0)"
    "Text_containingParagraph ((parsed abc_def)\<lparr>domSelection := ((1, 0), (1, 0))\<rparr>) 0
       \<noteq> Text_containingParagraph ((parsed abc_def)\<lparr>domSelection := ((1, 0), (1, 0))\<rparr>) 1"
    by (simp_all add: model_defs)
  have av: "[''abcdef''] =
      [if trim (Text_content (texts ((parsed abc_def)\<lparr>domSelection := ((1, 0), (1, 0))\<rparr>) 0)) \<noteq> []
       then Text_content (texts ((parsed abc_def)\<lparr>domSelection := ((1, 0), (1, 0))\<rparr>) 0)
            @ Text_content (texts ((parsed abc_def)\<lparr>domSelection := ((1, 0), (1, 0))\<rparr>) 1)
       else Text_content (texts ((parsed abc_def)\<lparr>domSelection := ((1, 0), (1, 0))\<rparr>) 1)]"
    "3 = (if trim (Text_content (texts ((parsed abc_def)\<lparr>domSelection := ((1, 0), (1, 0))\<rparr>) 0)) = []
          then 0 else Text_length ((parsed abc_def)\<lparr>domSelection := ((1, 0), (1, 0))\<rparr>) 0)"
    by (simp_all add: model_defs)
  have b: "content ((parsed blank_def)\<lparr>domSelection := ((1, 0), (1, 0))\<rparr>) = [0, 1]"
    "Paragraph_content (paragraphs ((parsed blank_def)\<lparr>domSelection := ((1, 0), (1, 0))\<rparr>) 1) = [TextRef 1]"
    "Paragraph_content (paragraphs ((parsed blank_def)\<lparr>domSelection := ((1, 0), (1, 0))\<rparr>) 0) = [TextRef 0]"
    "domSelection ((parsed blank_def)\<lparr>domSelection := ((1, 0), (1, 0))\<rparr>) = ((1, 0), (1, 0))"
    "Text_getPrecedingText ((parsed blank_def)\<lparr>domSelection := ((1, 0), (1, 0))\<rparr>) 1 = Inr (Some 0)"
    "Text_containingParagraph ((parsed blank_def)\<lparr>domSelection := ((1, 0), (1, 0))\<rparr>) 0
       \<noteq> Text_containingParagraph ((parsed blank_def)\<lparr>domSelection := ((1, 0), (1, 0))\<rparr>) 1"
    by (simp_all add: model_defs)
  have bv: "[''def''] =
      [if trim (Text_content (texts ((parsed blank_def)\<lparr>domSelection := ((1, 0), (1, 0))\<rparr>) 0)) \<noteq> []
       then Text_content (texts ((parsed blank_def)\<lparr>domSelection := ((1, 0), (1, 0))\<rparr>) 0)
            @ Text_content (texts ((parsed blank_def)\<lparr>domSelection := ((1, 0), (1, 0))\<rparr>) 1)
       else Text_content (texts ((parsed blank_def)\<lparr>domSelection := ((1, 0), (1, 0))\<rparr>) 1)]"
    "0 = (if trim (Text_content (texts ((parsed blank_def)\<lparr>domSelection := ((1, 0), (1, 0))\<rparr>) 0)) = []
          then 0 else Text_length ((parsed blank_def)\<lparr>domSelection := ((1, 0), (1, 0))\<rparr>) 0)"
    by (simp_all add: model_defs)
  from one[OF two_paragraph_facts(1,2) a av] one[OF two_paragraph_facts(3,4) b bv]
  show ?thesis by simp
qed

subsection \<open>What ofMarkdown accepts and what it copies\<close>

lemma Paragraph_ofMarkdown_loop_Inr:
  "(\<exists>s'. Paragraph_ofMarkdown_loop r cs s = Inr s') \<longleftrightarrow> (\<forall>c \<in> set cs. acceptedInline c)"
  by (induction cs arbitrary: s)
     (auto simp: acceptedInline_def Link_ofMarkdown_def Text_ofMarkdown_def split_beta)

lemma Paragraph_ofMarkdown_Inr:
  "(\<exists>r. Paragraph_ofMarkdown n s = Inr r) \<longleftrightarrow> acceptedParagraph n"
  using Paragraph_ofMarkdown_loop_Inr[of "nextParagraph s" "children n" "snd (new_Paragraph s)"]
  by (auto simp: Paragraph_ofMarkdown_def acceptedParagraph_def split_beta andThen_eq_Inr)

lemma Model_ofMarkdown_loop_Inr:
  "(\<exists>s'. Model_ofMarkdown_loop ps s = Inr s') \<longleftrightarrow> (\<forall>p \<in> set ps. acceptedParagraph p)"
proof (induction ps arbitrary: s)
  case Nil
  then show ?case by simp
next
  case (Cons p ps)
  show ?case
  proof (cases "acceptedParagraph p")
    case True
    then obtain r where r: "Paragraph_ofMarkdown p s = Inr r"
      using Paragraph_ofMarkdown_Inr[of p s] by blast
    show ?thesis using True Cons.IH[of "Model_addParagraph (fst r) (snd r)"]
      by (simp add: r split_beta)
  next
    case False
    then have "\<forall>r. Paragraph_ofMarkdown p s \<noteq> Inr r"
      using Paragraph_ofMarkdown_Inr[of p s] by blast
    then obtain e where "Paragraph_ofMarkdown p s = Inl e"
      by (cases "Paragraph_ofMarkdown p s") auto
    then show ?thesis using False by simp
  qed
qed

text \<open>X1. \<^verbatim>\<open>Model.ofMarkdown\<close> returns a model exactly for a document node whose children
  are all paragraph nodes whose children are each a text node or a link node with exactly
  one child; on every other tree it throws.\<close>

theorem Model_ofMarkdown_accepts:
  "(\<exists>s. Model_ofMarkdown sel d = Inr s) \<longleftrightarrow> acceptedDocument d"
  using Model_ofMarkdown_loop_Inr[of "children d" "new_Model sel"]
  by (simp add: Model_ofMarkdown_def acceptedDocument_def)

theorem Model_ofMarkdown_accepts_witness:
  "acceptedDocument mixed \<and> (\<exists>s. Model_ofMarkdown ((0, 0), (0, 0)) mixed = Inr s) \<and>
   \<not> acceptedDocument (documentNode [paragraphNode [linkNode ''u'' []]]) \<and>
   (\<forall>s. Model_ofMarkdown ((0, 0), (0, 0)) (documentNode [paragraphNode [linkNode ''u'' []]]) \<noteq> Inr s)"
  using Model_ofMarkdown_accepts[of "((0, 0), (0, 0))" mixed]
    Model_ofMarkdown_accepts[of "((0, 0), (0, 0))" "documentNode [paragraphNode [linkNode ''u'' []]]"]
  by (simp add: acceptedDocument_def acceptedParagraph_def acceptedInline_def
      mixed_def documentNode_def paragraphNode_def textNode_def linkNode_def)

lemma inline_ofMarkdown:
  assumes "storeInvariant Q s" and "acceptedInline c"
  shows "\<exists>c' s1.
      (if node_type c = ''link''
       then andThen (Link_ofMarkdown p c s) (\<lambda>(l, s1). Inr (LinkRef l, s1))
       else andThen (Text_ofMarkdown (OfParagraph p) c s) (\<lambda>(t, s1). Inr (TextRef t, s1)))
        = Inr (c', s1) \<and>
      storeInvariant Q s1 \<and> keeps s s1 \<and> allocatedContent s1 c' \<and>
      Content_content s1 c' = inlineText c \<and> paragraphs s1 = paragraphs s"
proof (cases "node_type c = ''link''")
  case True
  let ?v = "literalOrEmpty (children c ! 0)"
  let ?r = "new_Link p ?v (destination c) s"
  have "Link_ofMarkdown p c s = Inr ?r"
    using True assms(2) by (simp add: Link_ofMarkdown_def acceptedInline_def)
  moreover have "storeInvariant Q (snd ?r)" using assms(1) by (rule inv_new_Link)
  moreover have "keeps s (snd ?r)" by (simp add: keeps_def new_Link_eq)
  moreover have "allocatedContent (snd ?r) (LinkRef (fst ?r))" by (simp add: allocatedContent_def)
  moreover have "Content_content (snd ?r) (LinkRef (fst ?r)) = inlineText c"
    using True by (simp add: Content_content_def Content_text_def inlineText_def)
  moreover have "paragraphs (snd ?r) = paragraphs s" by simp
  ultimately show ?thesis using True by (simp add: split_beta)
next
  case False
  let ?v = "literalOrEmpty c"
  let ?r = "new_Text (OfParagraph p) ?v s"
  have "Text_ofMarkdown (OfParagraph p) c s = Inr ?r"
    using False assms(2) by (simp add: Text_ofMarkdown_def acceptedInline_def)
  moreover have "storeInvariant Q (snd ?r)" using assms(1) by (rule inv_new_Text)
  moreover have "keeps s (snd ?r)" by (simp add: keeps_def new_Text_eq)
  moreover have "allocatedContent (snd ?r) (TextRef (fst ?r))" by (simp add: allocatedContent_def)
  moreover have "Content_content (snd ?r) (TextRef (fst ?r)) = inlineText c"
    using False by (simp add: Content_content_def Content_text_def inlineText_def)
  moreover have "paragraphs (snd ?r) = paragraphs s" by simp
  ultimately show ?thesis using False by (simp add: split_beta)
qed

lemma keeps_addContent: "keeps s (Paragraph_addContent p c s)"
  by (simp add: keeps_def Paragraph_addContent_def)

lemma Paragraph_ofMarkdown_loop_texts:
  assumes "storeInvariant UNIV s" and "r < nextParagraph s"
    and "\<forall>c \<in> set cs. acceptedInline c"
  shows "\<exists>s'. Paragraph_ofMarkdown_loop r cs s = Inr s' \<and> storeInvariant UNIV s' \<and> keeps s s' \<and>
           (\<forall>q. q \<noteq> r \<longrightarrow> paragraphs s' q = paragraphs s q) \<and>
           paragraphTexts s' r = paragraphTexts s r @ map inlineText cs"
  using assms
proof (induction cs arbitrary: s)
  case Nil
  then show ?case by simp
next
  case (Cons c cs)
  from inline_ofMarkdown[OF Cons.prems(1), of c r] Cons.prems(3)
  obtain c' s1 where
    step: "(if node_type c = ''link''
       then andThen (Link_ofMarkdown r c s) (\<lambda>(l, s1). Inr (LinkRef l, s1))
       else andThen (Text_ofMarkdown (OfParagraph r) c s) (\<lambda>(t, s1). Inr (TextRef t, s1)))
        = Inr (c', s1)"
    and inv1: "storeInvariant UNIV s1" and k1: "keeps s s1" and al: "allocatedContent s1 c'"
    and cc: "Content_content s1 c' = inlineText c" and ps: "paragraphs s1 = paragraphs s"
    by auto
  let ?s2 = "Paragraph_addContent r c' s1"
  have inv2: "storeInvariant UNIV ?s2"
    using inv_Paragraph_addContent[OF inv1 al, of r] by (rule storeInvariant_mono) simp
  have k2: "keeps s ?s2" using k1 keeps_addContent by (rule keeps_trans)
  have r2: "r < nextParagraph ?s2" using Cons.prems(2) k2 by (simp add: keeps_def)
  from Cons.IH[OF inv2 r2] Cons.prems(3)
  obtain s' where
    loop: "Paragraph_ofMarkdown_loop r cs ?s2 = Inr s'"
    and inv': "storeInvariant UNIV s'" and k': "keeps ?s2 s'"
    and oth: "\<forall>q. q \<noteq> r \<longrightarrow> paragraphs s' q = paragraphs ?s2 q"
    and tx: "paragraphTexts s' r = paragraphTexts ?s2 r @ map inlineText cs"
    by auto
  have old: "Content_content s1 d = Content_content s d"
    if "d \<in> set (Paragraph_content (paragraphs s r))" for d
    using keeps_Content(2)[OF k1 Cons.prems(1) invD3[OF Cons.prems(1,2) that]] .
  have t2: "paragraphTexts ?s2 r = paragraphTexts s r @ [inlineText c]"
    using old cc
    by (simp add: paragraphTexts_def Paragraph_addContent_def ps Content_content_def Content_text_def)
  have "Paragraph_ofMarkdown_loop r (c # cs) s = Inr s'"
    using step loop by simp
  moreover have "keeps s s'" using k2 k' by (rule keeps_trans)
  moreover have "\<forall>q. q \<noteq> r \<longrightarrow> paragraphs s' q = paragraphs s q"
    using oth ps by (simp add: Paragraph_addContent_def set_Paragraph_content_def)
  moreover have "paragraphTexts s' r = paragraphTexts s r @ map inlineText (c # cs)"
    using tx t2 by simp
  ultimately show ?case using inv' by blast
qed

lemma Model_ofMarkdown_loop_texts:
  assumes "storeInvariant UNIV s" and "\<forall>p \<in> set ps. acceptedParagraph p"
  shows "\<exists>s'. Model_ofMarkdown_loop ps s = Inr s' \<and>
           documentTexts s' = documentTexts s @ map (\<lambda>p. map inlineText (children p)) ps"
  using assms
proof (induction ps arbitrary: s)
  case Nil
  then show ?case by simp
next
  case (Cons p ps)
  let ?r = "nextParagraph s"
  let ?s1 = "snd (new_Paragraph s)"
  have acc: "node_type p = ''paragraph''" "\<forall>c \<in> set (children p). acceptedInline c"
    using Cons.prems(2) by (simp_all add: acceptedParagraph_def)
  have inv1: "storeInvariant UNIV ?s1"
    using inv_new_Paragraph[OF Cons.prems(1)] by simp
  have r1: "?r < nextParagraph ?s1" by simp
  from Paragraph_ofMarkdown_loop_texts[OF inv1 r1 acc(2)]
  obtain s2 where
    loop: "Paragraph_ofMarkdown_loop ?r (children p) ?s1 = Inr s2"
    and inv2: "storeInvariant UNIV s2" and k: "keeps ?s1 s2"
    and oth: "\<forall>q. q \<noteq> ?r \<longrightarrow> paragraphs s2 q = paragraphs ?s1 q"
    and tx: "paragraphTexts s2 ?r = paragraphTexts ?s1 ?r @ map inlineText (children p)"
    by blast
  let ?s3 = "Model_addParagraph ?r s2"
  have par: "Paragraph_ofMarkdown p s = Inr (?r, s2)"
    using acc(1) loop by (simp add: Paragraph_ofMarkdown_def split_beta)
  have c2: "content s2 = content s" "nextParagraph s2 = Suc ?r"
    using k by (simp_all add: keeps_def)
  have inv3: "storeInvariant UNIV ?s3"
    unfolding Model_addParagraph_def using inv2
  proof (rule inv_content_update)
    show "\<forall>q \<in> set (content s2 @ [?r]). q < nextParagraph s2"
      using c2 invD1[OF Cons.prems(1)] by (auto simp: less_Suc_eq)
  qed
  have same: "paragraphTexts s2 q = paragraphTexts s q" if q: "q \<in> set (content s)" for q
  proof -
    have lt: "q < ?r" using Cons.prems(1) q by (rule invD1)
    then have pq: "paragraphs s2 q = paragraphs s q"
      using oth by (simp add: new_Paragraph_def Let_def)
    have "Content_content s2 d = Content_content s d"
      if d: "d \<in> set (Paragraph_content (paragraphs s q))" for d
    proof -
      have "allocatedContent ?s1 d"
        using invD3[OF Cons.prems(1) lt d] by (cases d) (simp_all add: allocatedContent_def)
      from keeps_Content(2)[OF k inv1 this] show ?thesis by simp
    qed
    then show ?thesis by (simp add: paragraphTexts_def pq)
  qed
  have d3: "documentTexts ?s3 = documentTexts s @ [map inlineText (children p)]"
    using same tx c2 by (simp add: documentTexts_def Model_addParagraph_def paragraphTexts_def)
  from Cons.IH[OF inv3] Cons.prems(2)
  obtain s' where
    "Model_ofMarkdown_loop ps ?s3 = Inr s'"
    and "documentTexts s' = documentTexts ?s3 @ map (\<lambda>p. map inlineText (children p)) ps"
    by auto
  then show ?case using par d3 by simp
qed

text \<open>X2. On such a tree the document holds one paragraph for each paragraph node, in
  order, and one text run for each of its children, in order, with the literal of the text
  node (of the link's child for a link) as its string, and one space where that literal is
  empty or missing.\<close>

theorem Model_ofMarkdown_texts:
  assumes "acceptedDocument d"
  shows "textsOf (Model_ofMarkdown sel d) = Inr (map (\<lambda>p. map inlineText (children p)) (children d))"
proof -
  have "storeInvariant UNIV (new_Model sel)"
    using wellFormed_new_Model[of sel] unfolding wellFormed_def
    by (rule storeInvariant_mono) simp
  from Model_ofMarkdown_loop_texts[OF this, of "children d"] assms
  obtain s' where "Model_ofMarkdown_loop (children d) (new_Model sel) = Inr s'"
    and "documentTexts s' = documentTexts (new_Model sel) @ map (\<lambda>p. map inlineText (children p)) (children d)"
    by (auto simp: acceptedDocument_def)
  then show ?thesis
    using assms
    by (simp add: Model_ofMarkdown_def acceptedDocument_def textsOf_def documentTexts_def new_Model_def)
qed

theorem Model_ofMarkdown_texts_witness:
  "acceptedDocument mixed \<and>
   textsOf (Model_ofMarkdown ((0, 0), (0, 0)) mixed)
     = Inr [[''first''], [''ab '', ''cd'', '' ef'', ''gh'', ''ij'']]"
  using Model_ofMarkdown_texts[of mixed "((0, 0), (0, 0))"]
  by (simp add: acceptedDocument_def acceptedParagraph_def acceptedInline_def inlineText_def
      mixed_def documentNode_def paragraphNode_def textNode_def linkNode_def literalOrEmpty_def)

end
